theory Spec2Isabelle
  imports Complex_Main "HOL-Library.AList"
begin

section \<open>Python values: errors, dictionaries, loops\<close>

text \<open>
  The notebooks are straight-line Python over dictionaries. A dictionary is an association
  list in insertion order: \<open>d[k] = v\<close> is \<open>AList.update k v d\<close> (overwrite in place, or
  append), \<open>d[k]\<close> raises \<open>KeyError\<close> on a missing key, \<open>k in d\<close> is membership in the key
  list, and \<open>for k in d\<close> runs over the keys in order. Biases, couplings and energies are
  numbers modelled as reals, exact as long as floats do not round and numpy's 64-bit
  integers do not wrap, and spins are integers. Where a float computation leaves the
  finite range at ordinary inputs (the Boltzmann weights), overflow and underflow are
  modelled too.
\<close>

datatype error = KeyError | ZeroDivisionError

type_synonym ('k, 'v) dict = "('k \<times> 'v) list"

definition keys :: "('k, 'v) dict \<Rightarrow> 'k list" where
  "keys d = map fst d"

definition lookup :: "('k, 'v) dict \<Rightarrow> 'k \<Rightarrow> error + 'v" where
  "lookup d k = (case map_of d k of None \<Rightarrow> Inl KeyError | Some v \<Rightarrow> Inr v)"

definition rbind :: "error + 'a \<Rightarrow> ('a \<Rightarrow> error + 'b) \<Rightarrow> error + 'b" where
  "rbind m f = (case m of Inl e \<Rightarrow> Inl e | Inr x \<Rightarrow> f x)"

text \<open>A \<open>for\<close> loop whose body may raise: the first exception ends the loop.\<close>

fun foldM :: "('a \<Rightarrow> 's \<Rightarrow> error + 's) \<Rightarrow> 'a list \<Rightarrow> 's \<Rightarrow> error + 's" where
  "foldM f [] s = Inr s"
| "foldM f (x # xs) s = rbind (f x s) (foldM f xs)"

text \<open>A list comprehension whose element expression may raise.\<close>

fun traverse :: "('a \<Rightarrow> error + 'b) \<Rightarrow> 'a list \<Rightarrow> error + 'b list" where
  "traverse f [] = Inr []"
| "traverse f (x # xs) = rbind (f x) (\<lambda>y. rbind (traverse f xs) (\<lambda>ys. Inr (y # ys)))"

text \<open>A Python set is a list without repetition; \<open>s.add(x)\<close> keeps a present element in
  place and puts a new one last.\<close>

definition set_add :: "'a \<Rightarrow> 'a list \<Rightarrow> 'a list" where
  "set_add x xs = (if x \<in> set xs then xs else xs @ [x])"

definition py_fdiv :: "real \<Rightarrow> real \<Rightarrow> error + real" where
  "py_fdiv a b = (if b = 0 then Inl ZeroDivisionError else Inr (a / b))"

section \<open>Max-cut as an Ising model (notebook 10, annealing cell)\<close>

text \<open>
  \<^verbatim>\<open>
  J, h = {}, {}
  for i in range(n_instances):
      h[i] = 0
      for j in range(i+1, n_instances):
          J[(i, j)] = w[i, j]
  model = dimod.BinaryQuadraticModel(h, J, 0.0, dimod.SPIN)
  \<close>
  \<open>w\<close> is the \<open>n_instances \<times> n_instances\<close> numpy array of pairwise distances; the loops
  read it only at indices below \<open>n_instances\<close>, so it is a function of the two indices.
\<close>

datatype vartype = SPIN | BINARY

record bqm =
  linear :: "(nat, real) dict"
  quadratic :: "(nat \<times> nat, real) dict"
  offset :: real
  vartype :: vartype

definition couple_row ::
  "(nat \<Rightarrow> nat \<Rightarrow> real) \<Rightarrow> nat \<Rightarrow> nat \<Rightarrow> (nat \<times> nat, real) dict \<Rightarrow> (nat \<times> nat, real) dict" where
  "couple_row w n i J = fold (\<lambda>j J'. AList.update (i, j) (w i j) J') [Suc i..<n] J"

definition ising_fields ::
  "nat \<Rightarrow> (nat \<Rightarrow> nat \<Rightarrow> real) \<Rightarrow> (nat \<times> nat, real) dict \<times> (nat, real) dict" where
  "ising_fields n w =
     fold (\<lambda>i (J, h). (couple_row w n i J, AList.update i 0 h)) [0..<n] ([], [])"

definition build_maxcut_ising :: "nat \<Rightarrow> (nat \<Rightarrow> nat \<Rightarrow> real) \<Rightarrow> bqm" where
  "build_maxcut_ising n w =
     (case ising_fields n w of
        (J, h) \<Rightarrow> \<lparr>linear = h, quadratic = J, offset = 0.0, vartype = SPIN\<rparr>)"

text \<open>One quarter of the sum of all weights over both orderings, the constant the max-cut
  expansion of the notebook's text carries.\<close>

definition quarter_weight_sum :: "nat \<Rightarrow> (nat \<Rightarrow> nat \<Rightarrow> real) \<Rightarrow> real" where
  "quarter_weight_sum n w = (\<Sum>i\<leftarrow>[0..<n]. \<Sum>j\<leftarrow>[0..<n]. w i j) / 4"

text \<open>The two-node graph with the single edge \<open>w(0,1) = w(1,0) = 2\<close>.\<close>

definition single_edge_w :: "nat \<Rightarrow> nat \<Rightarrow> real" where
  "single_edge_w i j = (if i \<noteq> j \<and> i < 2 \<and> j < 2 then 2 else 0)"

section \<open>The three-node chain (notebook on probabilistic graphical models)\<close>

text \<open>
  \<^verbatim>\<open>
  n_spins = 3
  h = {v: 1 for v in range(n_spins)}
  J = {(0, 1): 2,
       (1, 2): -1}
  \<close>
\<close>

definition chain_h :: "(nat, real) dict" where
  "chain_h = fold (\<lambda>v d. AList.update v 1 d) [0..<3] []"

definition chain_J :: "(nat \<times> nat, real) dict" where
  "chain_J = [((0, 1), 2), ((1, 2), -1)]"

text \<open>
  Modelled from the spec: the energy of a spin configuration,
  \<open>E = \<Sum> h(i) s(i) + \<Sum> J(i,j) s(i) s(j)\<close>; the notebook leaves it to
  \<open>dimod.BinaryQuadraticModel\<close>, whose code is not part of the repository.
\<close>

definition ising_energy ::
  "(nat, real) dict \<Rightarrow> (nat \<times> nat, real) dict \<Rightarrow> (nat, int) dict \<Rightarrow> error + real" where
  "ising_energy h J s =
     rbind (traverse (\<lambda>(i, hi). rbind (lookup s i) (\<lambda>si. Inr (hi * real_of_int si))) h)
       (\<lambda>hs. rbind (traverse (\<lambda>((i, j), Jij). rbind (lookup s i) (\<lambda>si. rbind (lookup s j)
                       (\<lambda>sj. Inr (Jij * real_of_int si * real_of_int sj)))) J)
       (\<lambda>js. Inr (sum_list hs + sum_list js)))"

text \<open>All assignments of \<open>-1\<close> or \<open>+1\<close> to the given nodes.\<close>

fun spin_configs :: "nat list \<Rightarrow> (nat, int) dict list" where
  "spin_configs [] = [[]]"
| "spin_configs (v # vs) = concat (map (\<lambda>c. [(v, -1) # c, (v, 1) # c]) (spin_configs vs))"

definition degeneracy ::
  "(nat, real) dict \<Rightarrow> (nat \<times> nat, real) dict \<Rightarrow> real \<Rightarrow> nat" where
  "degeneracy h J E =
     length (filter (\<lambda>s. ising_energy h J s = Inr E) (spin_configs (keys h)))"

section \<open>The cooling schedule and the acceptance test (clamped annealing cell)\<close>

text \<open>
  \<^verbatim>\<open>
  \<beta>s = [1.0 - 1.0*i / (num_sweeps - 1.) for i in range(num_sweeps)]
  \<close>
  With \<open>num_sweeps = 1\<close> the only element divides by \<open>0.\<close> and Python raises.
\<close>

definition betas :: "nat \<Rightarrow> error + real list" where
  "betas num_sweeps =
     traverse (\<lambda>i. rbind (py_fdiv (1.0 * real i) (real num_sweeps - 1))
                      (\<lambda>q. Inr (1.0 - q))) [0..<num_sweeps]"

text \<open>
  \<^verbatim>\<open>
  logp = np.log(np.random.uniform(0, 1))
  if logp < -1. * \<beta> * (energy_diff_h[v] + energy_diff_J[v]):
  \<close>
  \<open>np.log\<close> returns \<open>-inf\<close> at \<open>0\<close> and \<open>nan\<close> below; \<open>-inf\<close> is less than every finite
  number and no comparison with \<open>nan\<close> holds.
\<close>

datatype npfloat = NegInf | Fin real | PosInf | NaN

definition np_log :: "real \<Rightarrow> npfloat" where
  "np_log u = (if u < 0 then NaN else if u = 0 then NegInf else Fin (ln u))"

fun np_less :: "npfloat \<Rightarrow> npfloat \<Rightarrow> bool" where
  "np_less NegInf (Fin y) = True"
| "np_less NegInf PosInf = True"
| "np_less (Fin x) (Fin y) = (x < y)"
| "np_less (Fin x) PosInf = True"
| "np_less _ _ = False"

definition accepts :: "real \<Rightarrow> real \<Rightarrow> real \<Rightarrow> bool" where
  "accepts u \<beta> flip_delta = np_less (np_log u) (Fin (-1 * \<beta> * flip_delta))"

section \<open>Clamped simulated annealing (clamped annealing cell)\<close>

text \<open>
  \<^verbatim>\<open>
  adj = {n: set() for n in h}
  for n0, n1 in J:
      adj[n0].add(n1)
      adj[n1].add(n0)
  \<close>
  The order in which Python walks a set is not fixed by the language; the lists here keep
  the order of insertion, and no general statement below depends on it.
\<close>

type_synonym adjacency = "(nat, nat list) dict"

definition empty_adj :: "(nat, real) dict \<Rightarrow> adjacency" where
  "empty_adj h = fold (\<lambda>n d. AList.update n [] d) (keys h) []"

definition add_edge :: "nat \<times> nat \<Rightarrow> adjacency \<Rightarrow> error + adjacency" where
  "add_edge = (\<lambda>(n0, n1) adj.
     rbind (lookup adj n0) (\<lambda>s0.
       let adj' = AList.update n0 (set_add n1 s0) adj
       in rbind (lookup adj' n1) (\<lambda>s1. Inr (AList.update n1 (set_add n0 s1) adj'))))"

definition build_adj :: "(nat, real) dict \<Rightarrow> (nat \<times> nat, real) dict \<Rightarrow> error + adjacency" where
  "build_adj h J = foldM add_edge (keys J) (empty_adj h)"

text \<open>
  Modelled from the spec: \<open>greedy_coloring\<close> is imported from \<open>dimod\<close>, whose code is not
  part of the repository. The spec's algorithm: nodes in ascending id, each given the
  smallest colour index not used by an already coloured neighbour; the result is the
  per-node colour assignment and the dictionary from colour to its class of nodes.
\<close>

definition neighbours :: "adjacency \<Rightarrow> nat \<Rightarrow> nat list" where
  "neighbours adj v = (case map_of adj v of Some ns \<Rightarrow> ns | None \<Rightarrow> [])"

definition smallest_free :: "nat list \<Rightarrow> nat" where
  "smallest_free used =
     (case find (\<lambda>c. c \<notin> set used) [0..<Suc (length used)] of
        Some c \<Rightarrow> c | None \<Rightarrow> length used)"

definition add_to_class :: "nat \<Rightarrow> nat \<Rightarrow> (nat, nat list) dict \<Rightarrow> (nat, nat list) dict" where
  "add_to_class c v colors =
     (case map_of colors c of
        None \<Rightarrow> AList.update c [v] colors
      | Some cls \<Rightarrow> AList.update c (set_add v cls) colors)"

definition color_node ::
  "adjacency \<Rightarrow> nat \<Rightarrow> (nat, nat) dict \<times> (nat, nat list) dict
     \<Rightarrow> (nat, nat) dict \<times> (nat, nat list) dict" where
  "color_node adj v = (\<lambda>(coloring, colors).
     let c = smallest_free (List.map_filter (map_of coloring) (neighbours adj v))
     in (AList.update v c coloring, add_to_class c v colors))"

definition greedy_coloring :: "adjacency \<Rightarrow> (nat, nat) dict \<times> (nat, nat list) dict" where
  "greedy_coloring adj = fold (color_node adj) (sort (remdups (keys adj))) ([], [])"

text \<open>The adjacency set-up of the cell followed by the colouring; the result is \<open>colors\<close>.\<close>

definition color_graph ::
  "(nat, real) dict \<Rightarrow> (nat \<times> nat, real) dict \<Rightarrow> error + (nat, nat list) dict" where
  "color_graph h J = rbind (build_adj h J) (\<lambda>adj. Inr (snd (greedy_coloring adj)))"

text \<open>
  numpy's global generator is a source of draws and the number of draws made so far:
  \<open>choice_at src k\<close> is what \<open>np.random.choice((-1, 1))\<close> returns when it is draw number
  \<open>k\<close>, and \<open>uniform_at src k\<close> what \<open>np.random.uniform(0, 1)\<close> returns.
\<close>

record random_source =
  choice_at :: "nat \<Rightarrow> int"
  uniform_at :: "nat \<Rightarrow> real"

type_synonym run_state = "(nat, int) dict \<times> nat"

text \<open>
  \<^verbatim>\<open>
  spins = {v: np.random.choice((-1, 1)) if v not in clamped_spins else clamped_spins[v]
           for v in h}
  \<close>
\<close>

definition init_spin ::
  "random_source \<Rightarrow> (nat, int) dict \<Rightarrow> nat \<Rightarrow> run_state \<Rightarrow> error + run_state" where
  "init_spin src clamped_spins v = (\<lambda>(spins, k).
     if v \<notin> set (keys clamped_spins)
     then Inr (AList.update v (choice_at src k) spins, Suc k)
     else rbind (lookup clamped_spins v) (\<lambda>c. Inr (AList.update v c spins, k)))"

definition init_spins ::
  "random_source \<Rightarrow> (nat, int) dict \<Rightarrow> (nat, real) dict \<Rightarrow> nat \<Rightarrow> error + run_state" where
  "init_spins src clamped_spins h k = foldM (init_spin src clamped_spins) (keys h) ([], k)"

text \<open>
  \<^verbatim>\<open>
  energy_diff_h = {v: -2 * spins[v] * h[v] for v in h}
  \<close>
\<close>

definition energy_diff_h ::
  "(nat, real) dict \<Rightarrow> (nat, int) dict \<Rightarrow> error + (nat, real) dict" where
  "energy_diff_h h spins =
     foldM (\<lambda>v d. rbind (lookup spins v) (\<lambda>s. rbind (lookup h v)
              (\<lambda>hv. Inr (AList.update v (real_of_int (-2 * s) * hv) d)))) (keys h) []"

text \<open>
  \<^verbatim>\<open>
  ediff = 0
  for v1 in adj[v0]:
      if (v0, v1) in J:
          ediff += spins[v0] * spins[v1] * J[(v0, v1)]
      if (v1, v0) in J:
          ediff += spins[v0] * spins[v1] * J[(v1, v0)]
  energy_diff_J[v0] = -2. * ediff
  \<close>
\<close>

definition edge_term ::
  "(nat \<times> nat, real) dict \<Rightarrow> (nat, int) dict \<Rightarrow> nat \<Rightarrow> nat \<Rightarrow> nat \<times> nat \<Rightarrow> real \<Rightarrow> error + real" where
  "edge_term J spins v0 v1 e ediff =
     (if e \<in> set (keys J)
      then rbind (lookup spins v0) (\<lambda>s0. rbind (lookup spins v1) (\<lambda>s1. rbind (lookup J e)
             (\<lambda>j. Inr (ediff + real_of_int (s0 * s1) * j))))
      else Inr ediff)"

definition add_neighbour ::
  "(nat \<times> nat, real) dict \<Rightarrow> (nat, int) dict \<Rightarrow> nat \<Rightarrow> nat \<Rightarrow> real \<Rightarrow> error + real" where
  "add_neighbour J spins v0 v1 ediff =
     rbind (edge_term J spins v0 v1 (v0, v1) ediff) (edge_term J spins v0 v1 (v1, v0))"

definition coupling_sum ::
  "(nat \<times> nat, real) dict \<Rightarrow> adjacency \<Rightarrow> (nat, int) dict \<Rightarrow> nat \<Rightarrow> error + real" where
  "coupling_sum J adj spins v0 =
     rbind (lookup adj v0) (\<lambda>nbrs. foldM (add_neighbour J spins v0) nbrs 0)"

definition energy_diff_J ::
  "(nat \<times> nat, real) dict \<Rightarrow> adjacency \<Rightarrow> (nat, int) dict \<Rightarrow> nat list
     \<Rightarrow> error + (nat, real) dict" where
  "energy_diff_J J adj spins nodes =
     foldM (\<lambda>v0 d. rbind (coupling_sum J adj spins v0)
              (\<lambda>ediff. Inr (AList.update v0 (-2 * ediff) d))) nodes []"

text \<open>
  \<^verbatim>\<open>
  for v in filter(lambda x: x not in clamped_spins, nodes):
      logp = np.log(np.random.uniform(0, 1))
      if logp < -1. * \<beta> * (energy_diff_h[v] + energy_diff_J[v]):
          spins[v] *= -1
  \<close>
\<close>

definition unclamped :: "(nat, int) dict \<Rightarrow> nat list \<Rightarrow> nat list" where
  "unclamped clamped_spins nodes = filter (\<lambda>x. x \<notin> set (keys clamped_spins)) nodes"

definition flip_node ::
  "random_source \<Rightarrow> real \<Rightarrow> (nat, real) dict \<Rightarrow> (nat, real) dict \<Rightarrow> nat
     \<Rightarrow> run_state \<Rightarrow> error + run_state" where
  "flip_node src \<beta> edh edJ v = (\<lambda>(spins, k).
     let u = uniform_at src k
     in rbind (lookup edh v) (\<lambda>dh. rbind (lookup edJ v) (\<lambda>dJ.
          if accepts u \<beta> (dh + dJ)
          then rbind (lookup spins v) (\<lambda>s. Inr (AList.update v (s * -1) spins, Suc k))
          else Inr (spins, Suc k))))"

definition update_color ::
  "random_source \<Rightarrow> (nat \<times> nat, real) dict \<Rightarrow> adjacency \<Rightarrow> (nat, int) dict \<Rightarrow> real
     \<Rightarrow> (nat, real) dict \<Rightarrow> nat list \<Rightarrow> run_state \<Rightarrow> error + run_state" where
  "update_color src J adj clamped_spins \<beta> edh nodes = (\<lambda>(spins, k).
     rbind (energy_diff_J J adj spins nodes) (\<lambda>edJ.
       foldM (flip_node src \<beta> edh edJ) (unclamped clamped_spins nodes) (spins, k)))"

text \<open>
  \<^verbatim>\<open>
  for \<beta> in \<beta>s:
      energy_diff_h = {v: -2 * spins[v] * h[v] for v in h}
      for color in colors:
          nodes = colors[color]
          ...
  \<close>
\<close>

definition sweep ::
  "random_source \<Rightarrow> (nat, real) dict \<Rightarrow> (nat \<times> nat, real) dict \<Rightarrow> adjacency
     \<Rightarrow> (nat, nat list) dict \<Rightarrow> (nat, int) dict \<Rightarrow> real \<Rightarrow> run_state \<Rightarrow> error + run_state" where
  "sweep src h J adj colors clamped_spins \<beta> = (\<lambda>(spins, k).
     rbind (energy_diff_h h spins) (\<lambda>edh.
       foldM (\<lambda>color st. rbind (lookup colors color)
                (\<lambda>nodes. update_color src J adj clamped_spins \<beta> edh nodes st))
         (keys colors) (spins, k)))"

text \<open>The cell from the adjacency set-up on, for a given schedule; the result is \<open>spins\<close>
  (and the number of draws made).\<close>

definition anneal_schedule ::
  "random_source \<Rightarrow> (nat, real) dict \<Rightarrow> (nat \<times> nat, real) dict \<Rightarrow> (nat, int) dict
     \<Rightarrow> real list \<Rightarrow> nat \<Rightarrow> error + run_state" where
  "anneal_schedule src h J clamped_spins \<beta>s k =
     rbind (build_adj h J) (\<lambda>adj.
       case greedy_coloring adj of (coloring, colors) \<Rightarrow>
         rbind (init_spins src clamped_spins h k)
           (foldM (sweep src h J adj colors clamped_spins) \<beta>s))"

text \<open>The whole cell: the schedule is computed first, from \<open>num_sweeps\<close>.\<close>

definition anneal ::
  "random_source \<Rightarrow> (nat, real) dict \<Rightarrow> (nat \<times> nat, real) dict \<Rightarrow> (nat, int) dict
     \<Rightarrow> nat \<Rightarrow> nat \<Rightarrow> error + run_state" where
  "anneal src h J clamped_spins num_sweeps k =
     rbind (betas num_sweeps) (\<lambda>\<beta>s. anneal_schedule src h J clamped_spins \<beta>s k)"

text \<open>A source that always draws \<open>+1\<close> and \<open>1/2\<close>, for running the cell on examples.\<close>

definition fixed_source :: random_source where
  "fixed_source = \<lparr>choice_at = (\<lambda>k. 1), uniform_at = (\<lambda>k. 1 / 2)\<rparr>"


text \<open>A source whose uniform draw is always exactly \<open>0\<close>.\<close>

definition zero_source :: random_source where
  "zero_source = \<lparr>choice_at = (\<lambda>k. 1), uniform_at = (\<lambda>k. 0)\<rparr>"

text \<open>Reading a spin or a coupling, with \<open>0\<close> for a missing key.\<close>

definition spin_of :: "(nat, int) dict \<Rightarrow> nat \<Rightarrow> int" where
  "spin_of spins v = (case map_of spins v of Some s \<Rightarrow> s | None \<Rightarrow> 0)"

definition coupling :: "(nat \<times> nat, real) dict \<Rightarrow> nat \<times> nat \<Rightarrow> real" where
  "coupling J e = (case map_of J e of Some j \<Rightarrow> j | None \<Rightarrow> 0)"

text \<open>Every coupling joins two nodes of the model.\<close>

definition couplings_in_model :: "(nat, real) dict \<Rightarrow> (nat \<times> nat, real) dict \<Rightarrow> bool" where
  "couplings_in_model h J =
     list_all (\<lambda>(n0, n1). n0 \<in> set (keys h) \<and> n1 \<in> set (keys h)) (keys J)"

section \<open>The energy histogram and its Boltzmann weights (degeneracy cell)\<close>

text \<open>
  \<^verbatim>\<open>
  g = {} # dictionary that associate to each energy E the degeneracy g[E]
  for solution in response.aggregate().data():
      if solution.energy in g.keys():
          g[solution.energy] += 1
      else:
          g[solution.energy] = 1
  probabilities = np.array([g[E] * np.exp(-E/temperature) for E in g.keys()])
  Z = probabilities.sum()
  probabilities /= Z
  \<close>
  \<open>response\<close> holds the records of the \<open>num_reads\<close> sampler runs; \<open>aggregate\<close> is the
  library's, a parameter here.
\<close>

record solution =
  sample :: "(nat, int) dict"
  energy :: real
  num_occurrences :: nat

definition count_energy :: "solution \<Rightarrow> (real, nat) dict \<Rightarrow> (real, nat) dict" where
  "count_energy sol g =
     (case map_of g (energy sol) of
        Some c \<Rightarrow> AList.update (energy sol) (c + 1) g
      | None \<Rightarrow> AList.update (energy sol) 1 g)"

definition degeneracy_histogram :: "solution list \<Rightarrow> (real, nat) dict" where
  "degeneracy_histogram sols = fold count_energy sols []"

text \<open>
  The weights leave the finite floats for small temperatures, so their arithmetic carries
  the special values. A finite result is kept exact unless it is out of range: a magnitude
  of \<open>2^1024 - 2^970\<close> or more rounds to infinity, one of \<open>2^-1075\<close> or less to zero. Zero
  has no sign here.
\<close>

definition float_overflow :: real where
  "float_overflow = 2 ^ 1024 - 2 ^ 970"

definition float_underflow :: real where
  "float_underflow = 1 / 2 ^ 1075"

definition fl :: "real \<Rightarrow> npfloat" where
  "fl r = (if float_overflow \<le> r then PosInf
           else if r \<le> - float_overflow then NegInf
           else if \<bar>r\<bar> \<le> float_underflow then Fin 0
           else Fin r)"

fun is_neg :: "npfloat \<Rightarrow> bool" where
  "is_neg NegInf = True"
| "is_neg (Fin x) = (x < 0)"
| "is_neg _ = False"

fun np_neg :: "npfloat \<Rightarrow> npfloat" where
  "np_neg NegInf = PosInf"
| "np_neg (Fin x) = Fin (- x)"
| "np_neg PosInf = NegInf"
| "np_neg NaN = NaN"

fun np_add :: "npfloat \<Rightarrow> npfloat \<Rightarrow> npfloat" where
  "np_add (Fin x) (Fin y) = fl (x + y)"
| "np_add NaN b = NaN"
| "np_add a NaN = NaN"
| "np_add PosInf NegInf = NaN"
| "np_add NegInf PosInf = NaN"
| "np_add PosInf b = PosInf"
| "np_add a PosInf = PosInf"
| "np_add NegInf b = NegInf"
| "np_add a NegInf = NegInf"

fun np_mul :: "npfloat \<Rightarrow> npfloat \<Rightarrow> npfloat" where
  "np_mul (Fin x) (Fin y) = fl (x * y)"
| "np_mul NaN b = NaN"
| "np_mul a NaN = NaN"
| "np_mul a b = (if a = Fin 0 \<or> b = Fin 0 then NaN
                 else if is_neg a = is_neg b then PosInf else NegInf)"

fun np_div :: "npfloat \<Rightarrow> npfloat \<Rightarrow> npfloat" where
  "np_div (Fin x) (Fin y) =
     (if y = 0 then (if x = 0 then NaN else if 0 < x then PosInf else NegInf)
      else fl (x / y))"
| "np_div NaN b = NaN"
| "np_div a NaN = NaN"
| "np_div (Fin x) b = Fin 0"
| "np_div a (Fin y) = (if is_neg a = (y < 0) then PosInf else NegInf)"
| "np_div a b = NaN"

fun np_exp :: "npfloat \<Rightarrow> npfloat" where
  "np_exp NegInf = Fin 0"
| "np_exp (Fin x) = fl (exp x)"
| "np_exp PosInf = PosInf"
| "np_exp NaN = NaN"

definition np_sum :: "npfloat list \<Rightarrow> npfloat" where
  "np_sum ps = fold (\<lambda>p acc. np_add acc p) ps (Fin 0)"

definition boltzmann_weights :: "(real, nat) dict \<Rightarrow> real \<Rightarrow> error + npfloat list" where
  "boltzmann_weights g temperature =
     traverse (\<lambda>E. rbind (lookup g E) (\<lambda>c. Inr
        (np_mul (Fin (real c)) (np_exp (np_div (np_neg (Fin E)) (Fin temperature)))))) (keys g)"

definition estimate_distribution ::
  "(solution list \<Rightarrow> solution list) \<Rightarrow> solution list \<Rightarrow> real
     \<Rightarrow> error + (real, nat) dict \<times> npfloat list" where
  "estimate_distribution aggregate response temperature =
     (let g = degeneracy_histogram (aggregate response)
      in rbind (boltzmann_weights g temperature) (\<lambda>probabilities.
           let Z = np_sum probabilities
           in Inr (g, map (\<lambda>p. np_div p Z) probabilities)))"

text \<open>
  The merging \<open>aggregate\<close> does in \<open>dimod\<close>: one record for each distinct sample, with the
  occurrences added up. The cell's printed histogram, five records out of a hundred reads,
  shows it at work.
\<close>

fun merge_sample :: "solution \<Rightarrow> solution list \<Rightarrow> solution list" where
  "merge_sample s [] = [s]"
| "merge_sample s (r # rs) =
     (if sample r = sample s
      then r\<lparr>num_occurrences := num_occurrences r + num_occurrences s\<rparr> # rs
      else r # merge_sample s rs)"

definition merge_repeated :: "solution list \<Rightarrow> solution list" where
  "merge_repeated response = fold merge_sample response []"

text \<open>The number of records with a given energy, and a response of two runs that ended in
  the same configuration.\<close>

definition runs_with_energy :: "real \<Rightarrow> solution list \<Rightarrow> nat" where
  "runs_with_energy E sols = length (filter (\<lambda>s. energy s = E) sols)"


definition two_equal_runs :: "solution list" where
  "two_equal_runs =
     [\<lparr>sample = [(0, 1)], energy = 1, num_occurrences = 1\<rparr>,
      \<lparr>sample = [(0, 1)], energy = 1, num_occurrences = 1\<rparr>]"

section \<open>Notions used in the statements and proofs\<close>

text \<open>A real that a float operation returns unchanged: neither overflowing nor
  underflowing.\<close>

definition in_range :: "real \<Rightarrow> bool" where
  "in_range r \<longleftrightarrow> \<bar>r\<bar> < float_overflow \<and> (r = 0 \<or> float_underflow < \<bar>r\<bar>)"

text \<open>The total of the weights over the reals, and the condition that every value the
  cell computes from the histogram is in range.\<close>

definition total_weight :: "(real, nat) dict \<Rightarrow> real \<Rightarrow> real" where
  "total_weight g T = (\<Sum>(E, c)\<leftarrow>g. real c * exp (- E / T))"

definition weights_in_range :: "(real, nat) dict \<Rightarrow> real \<Rightarrow> bool" where
  "weights_in_range g T \<longleftrightarrow>
     in_range (total_weight g T) \<and>
     list_all (\<lambda>(E, c). in_range (- E / T) \<and> in_range (exp (- E / T)) \<and>
                 in_range (real c * exp (- E / T)) \<and>
                 in_range (real c * exp (- E / T) / total_weight g T)) g"


text \<open>The nodes a list of couplings joins to \<open>u\<close>.\<close>

definition edge_nodes :: "(nat \<times> nat) list \<Rightarrow> nat \<Rightarrow> nat set" where
  "edge_nodes es u = {v. (u, v) \<in> set es \<or> (v, u) \<in> set es}"

text \<open>What holds of the colouring once the nodes of \<open>D\<close> have been coloured.\<close>

definition coloring_inv ::
  "adjacency \<Rightarrow> nat set \<Rightarrow> (nat, nat) dict \<times> (nat, nat list) dict \<Rightarrow> bool" where
  "coloring_inv adj D st = (case st of (coloring, colors) \<Rightarrow>
     dom (map_of coloring) = D \<and>
     distinct (keys colors) \<and>
     (\<forall>c cls. map_of colors c = Some cls \<longrightarrow>
        distinct cls \<and> cls \<noteq> [] \<and> set cls = {v. map_of coloring v = Some c}) \<and>
     (\<forall>v c. map_of coloring v = Some c \<longrightarrow> map_of colors c \<noteq> None) \<and>
     (\<forall>u v. u \<in> D \<and> v \<in> D \<and> u \<noteq> v \<and> u \<in> set (neighbours adj v) \<longrightarrow>
        map_of coloring u \<noteq> map_of coloring v))"

section \<open>Basic facts about the dictionary operations\<close>

lemma rbind_Inr [simp]: "rbind (Inr x) f = f x"
  by (simp add: rbind_def)

lemma rbind_Inl [simp]: "rbind (Inl e) f = Inl e"
  by (simp add: rbind_def)

lemma rbind_eq_Inr: "rbind m f = Inr y \<longleftrightarrow> (\<exists>x. m = Inr x \<and> f x = Inr y)"
  by (cases m) simp_all

lemma lookup_eq_Inr: "lookup d k = Inr v \<longleftrightarrow> map_of d k = Some v"
  by (simp add: lookup_def split: option.splits)

lemma lookup_eq_Inl: "lookup d k = Inl e \<longleftrightarrow> e = KeyError \<and> map_of d k = None"
  by (auto simp: lookup_def split: option.splits)

lemma set_set_add [simp]: "set (set_add x xs) = insert x (set xs)"
  by (auto simp: set_add_def)

lemma distinct_set_add [simp]: "distinct (set_add x xs) = distinct xs"
  by (simp add: set_add_def)

lemma set_add_not_Nil [simp]: "set_add x xs \<noteq> []"
  by (auto simp: set_add_def)

lemma lookup_update: "lookup (AList.update k v d) k' = (if k' = k then Inr v else lookup d k')"
  by (simp add: lookup_def update_conv')

lemma keys_update: "set (keys (AList.update k v d)) = insert k (set (keys d))"
  using dom_update [of k v d] by (simp add: keys_def)

section \<open>The max-cut model\<close>

lemma map_of_couple_row:
  "map_of (couple_row w n i J) (a, b) =
     (if a = i \<and> i < b \<and> b < n then Some (w i b) else map_of J (a, b))"
proof -
  have "map_of (fold (\<lambda>j J'. AList.update (i, j) (w i j) J') js J) (a, b) =
          (if a = i \<and> b \<in> set js then Some (w i b) else map_of J (a, b))" for js
    by (induction js arbitrary: J) (auto simp: update_conv')
  from this [of "[Suc i..<n]"] show ?thesis
    by (auto simp: couple_row_def)
qed

lemma ising_fields_upto:
  "fold (\<lambda>i (J, h). (couple_row w n i J, AList.update i (0::real) h)) [0..<m] ([], []) = (J, h) \<Longrightarrow>
     (\<forall>a b. map_of J (a, b) = (if a < m \<and> a < b \<and> b < n then Some (w a b) else None)) \<and>
     (\<forall>a. map_of h a = (if a < m then Some 0 else None))"
proof (induction m arbitrary: J h)
  case 0
  then show ?case by auto
next
  case (Suc m)
  obtain J0 h0 where prev:
    "fold (\<lambda>i (J, h). (couple_row w n i J, AList.update i (0::real) h)) [0..<m] ([], []) = (J0, h0)"
    by (rule prod.exhaust)
  with Suc.prems have J: "J = couple_row w n m J0" and h: "h = AList.update m (0::real) h0"
    by simp_all
  from Suc.IH [OF prev] show ?case
    unfolding J h by (auto simp: map_of_couple_row update_conv' less_Suc_eq)
qed

lemma build_maxcut_ising_linear:
  "map_of (linear (build_maxcut_ising n w)) i = (if i < n then Some 0 else None)"
proof -
  obtain J h where f: "ising_fields n w = (J, h)"
    by (rule prod.exhaust)
  from ising_fields_upto [OF f [unfolded ising_fields_def]] f show ?thesis
    by (simp add: build_maxcut_ising_def)
qed

lemma build_maxcut_ising_quadratic:
  "map_of (quadratic (build_maxcut_ising n w)) (i, j) =
     (if i < j \<and> j < n then Some (w i j) else None)"
proof -
  obtain J h where f: "ising_fields n w = (J, h)"
    by (rule prod.exhaust)
  from ising_fields_upto [OF f [unfolded ising_fields_def]] f show ?thesis
    by (auto simp: build_maxcut_ising_def)
qed

lemma build_maxcut_ising_offset: "offset (build_maxcut_ising n w) = 0"
  by (simp add: build_maxcut_ising_def split: prod.splits)


text \<open>
  C1 (as amended). For every \<open>n\<close> and every weight array \<open>w\<close>, the model built by the
  annealing cell has bias \<open>h[i] = 0\<close> for every node \<open>i < n\<close>, coupling
  \<open>J[(i,j)] = w[i,j]\<close> for every pair \<open>i < j < n\<close> (zero weights included), and the
  constant offset \<open>0.0\<close>: the cell passes the literal \<open>0.0\<close> to the model and adds no
  quarter-sum constant.
\<close>

theorem build_maxcut_ising_fields:
  "(\<forall>i<n. lookup (linear (build_maxcut_ising n w)) i = Inr 0) \<and>
   (\<forall>i j. i < j \<and> j < n \<longrightarrow>
      lookup (quadratic (build_maxcut_ising n w)) (i, j) = Inr (w i j)) \<and>
   offset (build_maxcut_ising n w) = 0"
  by (simp add: lookup_eq_Inr build_maxcut_ising_linear build_maxcut_ising_quadratic
      build_maxcut_ising_offset)

theorem build_maxcut_ising_fields_witness:
  "lookup (linear (build_maxcut_ising 2 single_edge_w)) 0 = Inr 0 \<and>
   lookup (linear (build_maxcut_ising 2 single_edge_w)) 1 = Inr 0 \<and>
   lookup (quadratic (build_maxcut_ising 2 single_edge_w)) (0, 1) = Inr 2 \<and>
   offset (build_maxcut_ising 2 single_edge_w) = 0"
  using build_maxcut_ising_fields [of 2 single_edge_w]
  by (simp add: single_edge_w_def)

text \<open>
  C1 as stated fails on the offset: for the single-edge matrix a quarter of the sum of all
  weights is \<open>1\<close>, and the model's offset is \<open>0\<close>.
\<close>

theorem build_maxcut_ising_offset_counterexample:
  "quarter_weight_sum 2 single_edge_w = 1 \<and>
   offset (build_maxcut_ising 2 single_edge_w) \<noteq> 1"
  by (simp add: quarter_weight_sum_def single_edge_w_def build_maxcut_ising_offset upt_rec)

section \<open>The three-node chain\<close>

lemma chain_h_eq: "chain_h = [(0, 1), (1, 1), (2, 1)]"
  by (simp add: chain_h_def upt_rec)

lemma chain_energies:
  "map (ising_energy chain_h chain_J) (spin_configs (keys chain_h)) =
     [Inr (- 2), Inr (- 4), Inr (- 2), Inr 4, Inr 2, Inr 0, Inr (- 2), Inr 4]"
  by (simp add: chain_h_eq chain_J_def keys_def ising_energy_def lookup_def)

text \<open>
  C5. Over the eight spin assignments of the three-node chain exactly one has energy
  \<open>-4\<close>, exactly three have energy \<open>-2\<close> and exactly one has energy \<open>0\<close>; the other
  three have energies \<open>2\<close>, \<open>4\<close> and \<open>4\<close>.
\<close>

theorem chain_degeneracies:
  "length (spin_configs (keys chain_h)) = 8 \<and>
   degeneracy chain_h chain_J (- 4) = 1 \<and>
   degeneracy chain_h chain_J (- 2) = 3 \<and>
   degeneracy chain_h chain_J 0 = 1 \<and>
   degeneracy chain_h chain_J 2 = 1 \<and>
   degeneracy chain_h chain_J 4 = 2"
  by (simp add: degeneracy_def chain_h_eq chain_J_def keys_def ising_energy_def lookup_def)

section \<open>The schedule\<close>

lemma traverse_total:
  "(\<And>x. x \<in> set xs \<Longrightarrow> f x = Inr (g x)) \<Longrightarrow> traverse f xs = Inr (map g xs)"
  by (induction xs) simp_all

lemma betas_closed:
  assumes "2 \<le> n"
  shows "betas n = Inr (map (\<lambda>i. 1 - real i / (real n - 1)) [0..<n])"
  unfolding betas_def using assms
  by (intro traverse_total) (simp add: py_fdiv_def)

lemma betas_0: "betas 0 = Inr []"
  by (simp add: betas_def)

lemma betas_1: "betas 1 = Inl ZeroDivisionError"
  by (simp add: betas_def py_fdiv_def)

lemma betas_decreasing:
  assumes "2 \<le> n" "betas n = Inr bs" "i < j" "j < n"
  shows "bs ! j < bs ! i"
proof -
  have "bs = map (\<lambda>i. 1 - real i / (real n - 1)) [0..<n]"
    using betas_closed [OF assms(1)] assms(2) by simp
  moreover have "real i / (real n - 1) < real j / (real n - 1)"
    using assms by (simp add: divide_strict_right_mono)
  ultimately show ?thesis using assms by simp
qed

text \<open>
  C6. The schedule of the cell, at its own \<open>num_sweeps = 1000\<close>: it has 1000 entries, but
  it starts at \<open>\<beta> = 1\<close>, ends at \<open>\<beta> = 0\<close> and is not non-decreasing (by
  \<open>betas_decreasing\<close> it is strictly decreasing for every \<open>num_sweeps \<ge> 2\<close>).
\<close>

theorem betas_notebook_decreasing:
  "case betas 1000 of
     Inl e \<Rightarrow> False
   | Inr bs \<Rightarrow> length bs = 1000 \<and> bs ! 0 = 1 \<and> bs ! 999 = 0 \<and> bs ! 1 < bs ! 0 \<and> \<not> sorted bs"
proof -
  have b: "betas 1000 = Inr (map (\<lambda>i. 1 - real i / (real (1000::nat) - 1)) [0..<1000])"
    by (rule betas_closed) simp
  define bs where "bs = map (\<lambda>i. 1 - real i / (real (1000::nat) - 1)) [0..<1000]"
  have l: "length bs = 1000" by (simp add: bs_def)
  have b0: "bs ! 0 = 1" by (simp add: bs_def)
  have b1: "bs ! 1 = 1 - 1 / 999" by (simp add: bs_def)
  have b999: "bs ! 999 = 0" by (simp add: bs_def)
  have "\<not> sorted bs"
  proof
    assume "sorted bs"
    then have "bs ! 0 \<le> bs ! 1" using l by (simp add: sorted_iff_nth_mono)
    with b0 b1 show False by simp
  qed
  with l b0 b1 b999 show ?thesis unfolding b bs_def [symmetric] by simp
qed

section \<open>The acceptance test\<close>

lemma accepts_iff_exp:
  assumes "0 < u"
  shows "accepts u \<beta> d \<longleftrightarrow> u < exp (- (\<beta> * d))"
proof -
  have "ln u < - (\<beta> * d) \<longleftrightarrow> u < exp (- (\<beta> * d))"
    using assms by (metis exp_less_cancel_iff exp_ln)
  then show ?thesis using assms by (simp add: accepts_def np_log_def)
qed

lemma accepts_zero: "accepts 0 \<beta> d"
  by (simp add: accepts_def np_log_def)

text \<open>
  C2. For a non-negative \<open>\<beta>\<close> and a draw \<open>u\<close> strictly between 0 and 1, a flip with
  negative \<open>flip_delta = energy_diff_h[v] + energy_diff_J[v]\<close> passes the test, and the
  update multiplies the spin of \<open>v\<close> by \<open>-1\<close>. A flip with positive \<open>flip_delta\<close> passes
  exactly when \<open>u < exp (-\<beta> flip_delta)\<close>, a bound in \<open>(0, 1]\<close>: the accepted draws are
  the interval below it, whose length is the acceptance probability of a uniform draw.
\<close>

theorem metropolis_accepts_lowering:
  assumes "0 \<le> \<beta>" "0 < u" "u < 1"
  shows "(d < 0 \<longrightarrow> accepts u \<beta> d) \<and>
         (d < 0 \<and> uniform_at src k = u \<and> lookup edh v = Inr dh \<and> lookup edJ v = Inr dJ \<and>
            dh + dJ = d \<and> lookup spins v = Inr s \<longrightarrow>
            flip_node src \<beta> edh edJ v (spins, k) = Inr (AList.update v (s * -1) spins, Suc k)) \<and>
         (0 < d \<longrightarrow> (accepts u \<beta> d \<longleftrightarrow> u < exp (- \<beta> * d)) \<and>
            0 < exp (- \<beta> * d) \<and> exp (- \<beta> * d) \<le> 1)"
proof -
  have low: "accepts u \<beta> d" if "d < 0"
  proof -
    have "\<beta> * d \<le> 0" using assms(1) that by (simp add: mult_nonneg_nonpos)
    then have "1 \<le> exp (- (\<beta> * d))" by simp
    with assms(3) have "u < exp (- (\<beta> * d))" by (rule less_le_trans)
    with assms(2) show ?thesis by (simp only: accepts_iff_exp)
  qed
  have up: "exp (- \<beta> * d) \<le> 1" if "0 < d"
    using assms(1) that by simp
  show ?thesis
    using low up assms by (auto simp: accepts_iff_exp flip_node_def)
qed

theorem metropolis_accepts_lowering_witness:
  "accepts (1 / 2) 1 (- 2) \<and>
   flip_node fixed_source 1 [(1, - 2)] [(1, 0)] 1 ([(0, - 1), (1, 1)], 0)
     = Inr ([(0, - 1), (1, - 1)], 1) \<and>
   (accepts (1 / 2) 1 3 \<longleftrightarrow> 1 / 2 < exp (- 3 :: real)) \<and> exp (- 3 :: real) \<le> 1"
  using metropolis_accepts_lowering [of 1 "1 / 2" "- 2" fixed_source 0 "[(1, - 2)]" 1 "- 2"
      "[(1, 0)]" 0 "[(0, - 1), (1, 1)]" 1]
    metropolis_accepts_lowering [of 1 "1 / 2" 3]
  by (simp add: fixed_source_def lookup_def)

text \<open>
  C10. A uniform draw of exactly \<open>0\<close> has logarithm \<open>-inf\<close>, which is below every finite
  bound: the test passes for every \<open>\<beta>\<close> and every \<open>flip_delta\<close>, so the spin is flipped
  whatever the energy change. For a draw strictly between 0 and 1 the test is the
  Metropolis criterion \<open>u < exp (-\<beta> flip_delta)\<close>.
\<close>

theorem zero_draw_always_accepted:
  "accepts 0 \<beta> d \<and>
   (uniform_at src k = 0 \<and> lookup edh v = Inr dh \<and> lookup edJ v = Inr dJ \<and>
      lookup spins v = Inr s \<longrightarrow>
      flip_node src \<beta> edh edJ v (spins, k) = Inr (AList.update v (s * -1) spins, Suc k)) \<and>
   (0 < u \<and> u < 1 \<longrightarrow> (accepts u \<beta> d \<longleftrightarrow> u < exp (- \<beta> * d)))"
  by (auto simp: accepts_zero accepts_iff_exp flip_node_def)

theorem zero_draw_always_accepted_witness:
  "accepts 0 1000 5 \<and>
   flip_node zero_source 1000 [(1, 2)] [(1, 3)] 1 ([(0, - 1), (1, 1)], 0)
     = Inr ([(0, - 1), (1, - 1)], 1) \<and>
   (accepts (1 / 2) 1000 5 \<longleftrightarrow> 1 / 2 < exp (- 1000 * 5 :: real))"
  using zero_draw_always_accepted [of 1000 5 zero_source 0 "[(1, 2)]" 1 2 "[(1, 3)]" 3
      "[(0, - 1), (1, 1)]" 1 "1 / 2"]
  by (simp add: zero_source_def lookup_def)

section \<open>The histogram and the normalisation\<close>

lemma map_of_count_energy:
  "map_of (count_energy sol g) E =
     (if E = energy sol then Some (case map_of g E of Some c \<Rightarrow> c + 1 | None \<Rightarrow> 1)
      else map_of g E)"
  by (simp add: count_energy_def update_conv' split: option.splits)

lemma map_of_fold_count_energy:
  "map_of (fold count_energy sols g) E =
     (case map_of g E of
        Some c \<Rightarrow> Some (c + runs_with_energy E sols)
      | None \<Rightarrow> if runs_with_energy E sols = 0 then None else Some (runs_with_energy E sols))"
  by (induction sols arbitrary: g)
     (auto simp: map_of_count_energy runs_with_energy_def split: option.splits)

lemma map_of_degeneracy_histogram:
  "map_of (degeneracy_histogram sols) E =
     (if runs_with_energy E sols = 0 then None else Some (runs_with_energy E sols))"
  by (simp add: degeneracy_histogram_def map_of_fold_count_energy)

lemma sum_counts_update:
  "sum_list (map snd (AList.update k v g)) + (case map_of g k of Some c \<Rightarrow> c | None \<Rightarrow> 0)
     = sum_list (map snd g) + (v::nat)"
  by (induction g) auto

lemma sum_counts_count_energy:
  "sum_list (map snd (count_energy sol g)) = Suc (sum_list (map snd g))"
proof (cases "map_of g (energy sol)")
  case None
  with sum_counts_update [of "energy sol" 1 g] show ?thesis
    by (simp add: count_energy_def)
next
  case (Some c)
  with sum_counts_update [of "energy sol" "c + 1" g] show ?thesis
    by (simp add: count_energy_def)
qed

lemma sum_counts_fold:
  "sum_list (map snd (fold count_energy sols g)) = sum_list (map snd g) + length sols"
  by (induction sols arbitrary: g) (simp_all add: sum_counts_count_energy)

lemma distinct_count_energy: "distinct (keys g) \<Longrightarrow> distinct (keys (count_energy sol g))"
  by (simp add: count_energy_def keys_def distinct_update split: option.splits)

lemma distinct_degeneracy_histogram: "distinct (keys (degeneracy_histogram sols))"
proof -
  have "distinct (keys g) \<Longrightarrow> distinct (keys (fold count_energy sols g))" for g
    by (induction sols arbitrary: g) (simp_all add: distinct_count_energy)
  from this [of "[]"] show ?thesis by (simp add: degeneracy_histogram_def keys_def)
qed

lemma degeneracy_histogram_snoc:
  "degeneracy_histogram (sols @ [s]) = count_energy s (degeneracy_histogram sols)"
  by (simp add: degeneracy_histogram_def)

lemma float_underflow_pos: "0 < float_underflow"
  by (simp add: float_underflow_def)

lemma float_underflow_small: "float_underflow < 1 / 3"
  by (simp add: float_underflow_def)

lemma float_overflow_large: "4000 < float_overflow"
  by (simp add: float_overflow_def)

lemma fl_in_range: "in_range r \<Longrightarrow> fl r = Fin r"
  using float_underflow_pos by (auto simp: in_range_def fl_def)

lemma in_range_between:
  "float_underflow < r \<Longrightarrow> r < float_overflow \<Longrightarrow> in_range r"
  using float_underflow_pos by (simp add: in_range_def)

lemma in_range_pos: "in_range r \<Longrightarrow> 0 < r \<Longrightarrow> float_underflow < r \<and> r < float_overflow"
  by (simp add: in_range_def)

lemma in_range_exp_minus_one: "in_range (exp (- 1))"
proof (rule in_range_between)
  have "exp 1 \<le> (3::real)" by (rule exp_le)
  then have "1 / 3 \<le> 1 / exp (1::real)" by (simp add: field_simps)
  then have "1 / 3 \<le> exp (- 1 :: real)" by (simp add: exp_minus inverse_eq_divide)
  with float_underflow_small show "float_underflow < exp (- 1)" by simp
next
  have a: "exp (- 1 :: real) \<le> 1" by simp
  have b: "(1::real) < float_overflow" using float_overflow_large by simp
  from a b show "exp (- 1) < float_overflow" by (rule le_less_trans)
qed


lemma boltzmann_weights_closed:
  assumes "distinct (keys g)"
  shows "boltzmann_weights g T =
           Inr (map (\<lambda>(E, c). np_mul (Fin (real c)) (np_exp (np_div (np_neg (Fin E)) (Fin T)))) g)"
proof -
  let ?w = "\<lambda>E c. np_mul (Fin (real c)) (np_exp (np_div (np_neg (Fin E)) (Fin T)))"
  have "traverse (\<lambda>E. rbind (lookup g E) (\<lambda>c. Inr (?w E c))) (keys g)
        = Inr (map (\<lambda>E. ?w E (case map_of g E of Some c \<Rightarrow> c | None \<Rightarrow> 0)) (keys g))"
    by (rule traverse_total) (auto simp: lookup_def keys_def split: option.splits dest: weak_map_of_SomeI)
  moreover have "map (\<lambda>E. ?w E (case map_of g E of Some c \<Rightarrow> c | None \<Rightarrow> 0)) (keys g)
        = map (\<lambda>(E, c). ?w E c) g"
    using assms by (auto simp: keys_def)
  ultimately show ?thesis by (simp only: boltzmann_weights_def)
qed

lemma estimate_returns_histogram:
  "\<exists>ps. estimate_distribution aggregate response T =
           Inr (degeneracy_histogram (aggregate response), ps)"
  using boltzmann_weights_closed [OF distinct_degeneracy_histogram, of "aggregate response" T]
  by (simp add: estimate_distribution_def Let_def)

lemma sum_list_pos_real:
  "xs \<noteq> [] \<Longrightarrow> (\<And>x. x \<in> set xs \<Longrightarrow> 0 < x) \<Longrightarrow> 0 < sum_list (xs :: real list)"
  by (induction xs) (auto intro: add_pos_nonneg simp: sum_list_nonneg less_imp_le)


lemma histogram_counts_pos:
  assumes "(E, c) \<in> set (degeneracy_histogram sols)"
  shows "0 < c"
proof -
  have "map_of (degeneracy_histogram sols) E = Some c"
    using assms distinct_degeneracy_histogram [of sols] by (simp add: keys_def)
  then show ?thesis
    by (auto simp: map_of_degeneracy_histogram split: if_splits)
qed

lemma histogram_nonempty: "sols \<noteq> [] \<Longrightarrow> degeneracy_histogram sols \<noteq> []"
proof
  assume "sols \<noteq> []" "degeneracy_histogram sols = []"
  then have "sum_list (map snd (degeneracy_histogram sols)) = 0" by simp
  then show False using sum_counts_fold [of sols "[]"] \<open>sols \<noteq> []\<close>
    by (simp add: degeneracy_histogram_def)
qed

lemma np_sum_in_range:
  assumes "\<And>w. w \<in> set ws \<Longrightarrow> 0 < w \<and> in_range w"
    and "0 \<le> a" "in_range a" "a + sum_list ws < float_overflow"
  shows "fold (\<lambda>p acc. np_add acc p) (map Fin ws) (Fin a) = Fin (a + sum_list ws)"
  using assms
proof (induction ws arbitrary: a)
  case Nil
  then show ?case by simp
next
  case (Cons w ws)
  have w: "0 < w" "in_range w" using Cons.prems(1) by simp_all
  have nn: "0 \<le> sum_list ws"
    by (rule sum_list_nonneg) (use Cons.prems(1) in \<open>auto intro: less_imp_le\<close>)
  have "float_underflow < a + w" using in_range_pos [OF w(2) w(1)] Cons.prems(2) by simp
  moreover have "a + w < float_overflow" using Cons.prems(4) nn by simp
  ultimately have r: "in_range (a + w)" by (rule in_range_between)
  have nn': "0 \<le> a + w" using Cons.prems(2) w(1) by simp
  have "fold (\<lambda>p acc. np_add acc p) (map Fin ws) (Fin (a + w)) = Fin (a + w + sum_list ws)"
    by (rule Cons.IH) (use Cons.prems nn' r in \<open>simp_all add: add.assoc\<close>)
  then show ?case by (simp add: fl_in_range [OF r] add.assoc)
qed

lemma weights_in_range_closed:
  assumes "T \<noteq> 0" "weights_in_range g T" "(E, c) \<in> set g"
  shows "np_mul (Fin (real c)) (np_exp (np_div (np_neg (Fin E)) (Fin T)))
           = Fin (real c * exp (- E / T))"
    and "in_range (real c * exp (- E / T))"
    and "in_range (real c * exp (- E / T) / total_weight g T)"
proof -
  from assms(2,3) have r: "in_range (- E / T)" "in_range (exp (- E / T))"
    "in_range (real c * exp (- E / T))"
    "in_range (real c * exp (- E / T) / total_weight g T)"
    by (auto simp: weights_in_range_def list_all_iff)
  show "in_range (real c * exp (- E / T))"
    and "in_range (real c * exp (- E / T) / total_weight g T)" by (rule r)+
  show "np_mul (Fin (real c)) (np_exp (np_div (np_neg (Fin E)) (Fin T)))
           = Fin (real c * exp (- E / T))"
    using assms(1) r(1-3) [THEN fl_in_range] by simp
qed

lemma estimate_in_range:
  assumes "T \<noteq> 0" "aggregate response \<noteq> []"
  defines "g \<equiv> degeneracy_histogram (aggregate response)"
  assumes rng: "weights_in_range g T"
  shows "estimate_distribution aggregate response T =
           Inr (g, map (\<lambda>(E, c). Fin (real c * exp (- E / T) / total_weight g T)) g)"
    and "0 < total_weight g T"
proof -
  let ?ws = "map (\<lambda>(E, c). real c * exp (- E / T)) g"
  have tw: "total_weight g T = sum_list ?ws" by (simp add: total_weight_def)
  have pos: "0 < w \<and> in_range w" if "w \<in> set ?ws" for w
  proof -
    from that obtain E c where m: "(E, c) \<in> set g" and w: "w = real c * exp (- E / T)" by auto
    from m have "0 < c" unfolding g_def by (rule histogram_counts_pos)
    with w weights_in_range_closed(2) [OF assms(1) rng m] show ?thesis by simp
  qed
  have ne: "g \<noteq> []" unfolding g_def using assms(2) by (rule histogram_nonempty)
  show Z: "0 < total_weight g T" unfolding tw
    by (rule sum_list_pos_real) (use ne pos in auto)
  have zr: "in_range (total_weight g T)" using rng by (simp add: weights_in_range_def)
  have w: "boltzmann_weights g T = Inr (map Fin ?ws)"
  proof -
    have "map (\<lambda>(E, c). np_mul (Fin (real c)) (np_exp (np_div (np_neg (Fin E)) (Fin T)))) g
            = map Fin ?ws"
      using weights_in_range_closed(1) [OF assms(1) rng] by auto
    with boltzmann_weights_closed [of g T] distinct_degeneracy_histogram [of "aggregate response"]
    show ?thesis by (simp add: g_def)
  qed
  have s: "np_sum (map Fin ?ws) = Fin (total_weight g T)"
    using np_sum_in_range [of ?ws 0] pos zr Z
    by (simp add: np_sum_def tw in_range_def)
  have d: "map (\<lambda>p. np_div p (Fin (total_weight g T))) (map Fin ?ws)
             = map (\<lambda>(E, c). Fin (real c * exp (- E / T) / total_weight g T)) g"
    using weights_in_range_closed(3) [OF assms(1) rng] Z
    by (auto simp: fl_in_range)
  show "estimate_distribution aggregate response T =
           Inr (g, map (\<lambda>(E, c). Fin (real c * exp (- E / T) / total_weight g T)) g)"
    unfolding estimate_distribution_def g_def [symmetric] Let_def w rbind_Inr s d ..
qed



lemma two_equal_runs_histogram:
  "degeneracy_histogram (merge_repeated two_equal_runs) = [(1, 1)]"
  by (simp add: merge_repeated_def two_equal_runs_def degeneracy_histogram_def count_energy_def)

lemma two_equal_runs_in_range: "weights_in_range [(1, 1)] 1"
  using in_range_exp_minus_one float_underflow_small float_overflow_large float_underflow_pos
  by (simp add: weights_in_range_def total_weight_def in_range_def)

lemma two_equal_runs_estimate:
  "estimate_distribution merge_repeated two_equal_runs 1 = Inr ([(1, 1)], [Fin 1])"
  using estimate_in_range(1) [of 1 merge_repeated two_equal_runs] two_equal_runs_in_range
    estimate_in_range(2) [of 1 merge_repeated two_equal_runs]
  by (simp add: two_equal_runs_histogram total_weight_def) (simp add: two_equal_runs_def merge_repeated_def)




text \<open>
  C8 (as amended). The histogram starts empty and each record the loop visits adds exactly
  one to the count of its energy, so \<open>g[E]\<close> is the number of visited records with energy
  \<open>E\<close> (no rounding is applied) and the counts add up to the number of visited records.
  The records visited are those of \<open>response.aggregate()\<close>, and the histogram the cell
  goes on to use is the one of these records.
\<close>

theorem histogram_counts_aggregated:
  "degeneracy_histogram [] = [] \<and>
   degeneracy_histogram (sols @ [s]) = count_energy s (degeneracy_histogram sols) \<and>
   sum_list (map snd (count_energy s g)) = sum_list (map snd g) + 1 \<and>
   lookup (degeneracy_histogram sols) E =
     (if runs_with_energy E sols = 0 then Inl KeyError else Inr (runs_with_energy E sols)) \<and>
   sum_list (map snd (degeneracy_histogram sols)) = length sols \<and>
   (T \<noteq> 0 \<and> aggregate response \<noteq> [] \<longrightarrow>
      (\<exists>ps. estimate_distribution aggregate response T =
               Inr (degeneracy_histogram (aggregate response), ps)))"
proof -
  have "sum_list (map snd (degeneracy_histogram sols)) = length sols"
    using sum_counts_fold [of sols "[]"] by (simp add: degeneracy_histogram_def)
  moreover have "degeneracy_histogram [] = []"
    by (simp add: degeneracy_histogram_def)
  ultimately show ?thesis
    using estimate_returns_histogram [of aggregate response T]
    by (auto simp: degeneracy_histogram_snoc sum_counts_count_energy lookup_def
        map_of_degeneracy_histogram)
qed

theorem histogram_counts_aggregated_witness:
  "lookup (degeneracy_histogram (merge_repeated two_equal_runs)) 1 = Inr 1 \<and>
   sum_list (map snd (degeneracy_histogram (merge_repeated two_equal_runs))) = 1 \<and>
   (\<exists>ps. estimate_distribution merge_repeated two_equal_runs 1 =
            Inr (degeneracy_histogram (merge_repeated two_equal_runs), ps))"
  using histogram_counts_aggregated [where sols = "merge_repeated two_equal_runs" and E = 1
      and T = 1 and aggregate = merge_repeated and response = two_equal_runs]
  by (simp add: merge_repeated_def two_equal_runs_def runs_with_energy_def)

text \<open>
  C8 as stated fails: two runs that end in the same configuration are one record after
  \<open>aggregate\<close>, so the count of their energy is 1, not 2, and the counts add up to 1, not
  to the repetition count 2.
\<close>

theorem histogram_counts_runs_counterexample:
  "length two_equal_runs = 2 \<and> runs_with_energy 1 two_equal_runs = 2 \<and>
   estimate_distribution merge_repeated two_equal_runs 1 = Inr ([(1, 1)], [Fin 1]) \<and>
   lookup (degeneracy_histogram (merge_repeated two_equal_runs)) 1
     \<noteq> Inr (runs_with_energy 1 two_equal_runs) \<and>
   sum_list (map snd (degeneracy_histogram (merge_repeated two_equal_runs)))
     \<noteq> length two_equal_runs"
  by (simp add: two_equal_runs_estimate two_equal_runs_histogram)
     (simp add: two_equal_runs_def runs_with_energy_def lookup_def)

section \<open>The adjacency and the colouring\<close>

lemma map_of_empty_adj:
  "map_of (empty_adj h) u = (if u \<in> set (keys h) then Some [] else None)"
proof -
  have "map_of (fold (\<lambda>n d. AList.update n [] d) ns d) u
          = (if u \<in> set ns then Some [] else map_of d u)" for ns and d :: adjacency
    by (induction ns arbitrary: d) (auto simp: update_conv')
  from this [of "keys h" "[]"] show ?thesis by (simp add: empty_adj_def)
qed

lemma add_edge_Inr:
  assumes "add_edge (n0, n1) adj = Inr adj'"
  shows "dom (map_of adj') = dom (map_of adj) \<and> n0 \<in> dom (map_of adj) \<and> n1 \<in> dom (map_of adj) \<and>
         (\<forall>u. set (neighbours adj' u) = set (neighbours adj u)
                 \<union> (if u = n0 then {n1} else {}) \<union> (if u = n1 then {n0} else {}))"
  using assms
  by (auto simp: add_edge_def rbind_eq_Inr lookup_eq_Inr Let_def update_conv' neighbours_def
      split: if_splits)

lemma add_edge_total:
  assumes "n0 \<in> dom (map_of adj)" "n1 \<in> dom (map_of adj)"
  shows "\<exists>adj'. add_edge (n0, n1) adj = Inr adj'"
  using assms by (auto simp: add_edge_def lookup_def Let_def update_conv')

lemma foldM_add_edge_Inr:
  "foldM add_edge es adj0 = Inr adj \<Longrightarrow>
     dom (map_of adj) = dom (map_of adj0) \<and>
     (\<forall>(a, b) \<in> set es. a \<in> dom (map_of adj0) \<and> b \<in> dom (map_of adj0)) \<and>
     (\<forall>u. set (neighbours adj u) = set (neighbours adj0 u) \<union> edge_nodes es u)"
proof (induction es arbitrary: adj0)
  case Nil
  then show ?case by (simp add: edge_nodes_def)
next
  case (Cons e es)
  obtain n0 n1 where e: "e = (n0, n1)" by (cases e)
  from Cons.prems obtain adj1 where 1: "add_edge (n0, n1) adj0 = Inr adj1"
    and 2: "foldM add_edge es adj1 = Inr adj"
    by (auto simp: e rbind_eq_Inr)
  note s = add_edge_Inr [OF 1] and r = Cons.IH [OF 2]
  have d: "dom (map_of adj) = dom (map_of adj0)" using s r by simp
  have m: "\<forall>(a, b) \<in> set (e # es). a \<in> dom (map_of adj0) \<and> b \<in> dom (map_of adj0)"
    using s r by (auto simp: e)
  have n: "set (neighbours adj u) = set (neighbours adj0 u) \<union> edge_nodes (e # es) u" for u
  proof -
    have "set (neighbours adj u) = set (neighbours adj1 u) \<union> edge_nodes es u" using r by blast
    also have "set (neighbours adj1 u) = set (neighbours adj0 u)
                 \<union> (if u = n0 then {n1} else {}) \<union> (if u = n1 then {n0} else {})"
      using s by blast
    finally show ?thesis by (auto simp: e edge_nodes_def)
  qed
  from d m n show ?case by blast
qed

lemma foldM_add_edge_total:
  "(\<forall>(a, b) \<in> set es. a \<in> dom (map_of adj0) \<and> b \<in> dom (map_of adj0)) \<Longrightarrow>
     \<exists>adj. foldM add_edge es adj0 = Inr adj"
proof (induction es arbitrary: adj0)
  case Nil
  then show ?case by simp
next
  case (Cons e es)
  obtain n0 n1 where e: "e = (n0, n1)" by (cases e)
  from Cons.prems obtain adj1 where 1: "add_edge (n0, n1) adj0 = Inr adj1"
    using add_edge_total [of n0 adj0 n1] by (auto simp: e)
  have "dom (map_of adj1) = dom (map_of adj0)" using add_edge_Inr [OF 1] by simp
  with Cons.prems have "\<exists>adj. foldM add_edge es adj1 = Inr adj"
    by (intro Cons.IH) auto
  with 1 show ?case by (auto simp: e)
qed

lemma dom_map_of_keys: "dom (map_of d) = set (keys d)"
  by (simp add: dom_map_of_conv_image_fst keys_def)

lemma build_adj_Inr:
  assumes "build_adj h J = Inr adj"
  shows "set (keys adj) = set (keys h)"
    and "couplings_in_model h J"
    and "set (neighbours adj u) = edge_nodes (keys J) u"
proof -
  note f = foldM_add_edge_Inr [OF assms [unfolded build_adj_def]]
  have d0: "dom (map_of (empty_adj h)) = set (keys h)"
    by (auto simp: map_of_empty_adj dom_def)
  show "set (keys adj) = set (keys h)" using f d0 by (simp add: dom_map_of_keys)
  show "couplings_in_model h J" using f d0 by (auto simp: couplings_in_model_def list_all_iff)
  have "neighbours (empty_adj h) u = []" by (simp add: neighbours_def map_of_empty_adj)
  then show "set (neighbours adj u) = edge_nodes (keys J) u" using f by simp
qed

lemma build_adj_total:
  assumes "couplings_in_model h J"
  shows "\<exists>adj. build_adj h J = Inr adj"
proof -
  have d0: "dom (map_of (empty_adj h)) = set (keys h)"
    by (auto simp: map_of_empty_adj dom_def)
  show ?thesis unfolding build_adj_def
    by (rule foldM_add_edge_total) (use assms d0 in \<open>auto simp: couplings_in_model_def list_all_iff\<close>)
qed

lemma smallest_free_fresh: "smallest_free used \<notin> set used"
proof (cases "find (\<lambda>c. c \<notin> set used) [0..<Suc (length used)]")
  case None
  then have "set [0..<Suc (length used)] \<subseteq> set used"
    by (auto simp: find_None_iff)
  then have "card (set [0..<Suc (length used)]) \<le> card (set used)"
    by (intro card_mono) auto
  moreover have "card (set used) \<le> length used" by (rule card_length)
  ultimately show ?thesis by simp
next
  case (Some c)
  then have "c \<notin> set used" by (auto simp: find_Some_iff)
  with Some show ?thesis by (simp add: smallest_free_def)
qed


lemma set_map_filter_map_of:
  "set (List.map_filter (map_of coloring) ns) = {c. \<exists>u \<in> set ns. map_of coloring u = Some c}"
  by (auto simp: List.map_filter_def) force

lemma map_of_add_to_class:
  "map_of (add_to_class c v colors) c' =
     (if c' = c then Some (case map_of colors c of None \<Rightarrow> [v] | Some cls \<Rightarrow> set_add v cls)
      else map_of colors c')"
  by (simp add: add_to_class_def update_conv' split: option.splits)

lemma keys_add_to_class: "distinct (keys colors) \<Longrightarrow> distinct (keys (add_to_class c v colors))"
  by (simp add: add_to_class_def keys_def distinct_update split: option.splits)

lemma color_node_inv:
  assumes inv: "coloring_inv adj D st" and v: "v \<notin> D"
    and sym: "\<And>a b. a \<in> set (neighbours adj b) \<Longrightarrow> b \<in> set (neighbours adj a)"
  shows "coloring_inv adj (insert v D) (color_node adj v st)"
proof -
  obtain coloring colors where st: "st = (coloring, colors)" by (cases st)
  define c where "c = smallest_free (List.map_filter (map_of coloring) (neighbours adj v))"
  have step: "color_node adj v st = (AList.update v c coloring, add_to_class c v colors)"
    by (simp add: color_node_def st c_def Let_def)
  from inv have dom: "dom (map_of coloring) = D"
    and dk: "distinct (keys colors)"
    and cls0: "\<forall>c cls. map_of colors c = Some cls \<longrightarrow>
                distinct cls \<and> cls \<noteq> [] \<and> set cls = {v. map_of coloring v = Some c}"
    and cov0: "\<forall>v c. map_of coloring v = Some c \<longrightarrow> map_of colors c \<noteq> None"
    and proper0: "\<forall>u v. u \<in> D \<and> v \<in> D \<and> u \<noteq> v \<and> u \<in> set (neighbours adj v) \<longrightarrow>
                map_of coloring u \<noteq> map_of coloring v"
    unfolding coloring_inv_def st prod.case by blast+
  have cls: "distinct cls \<and> cls \<noteq> [] \<and> set cls = {v. map_of coloring v = Some c}"
    if "map_of colors c = Some cls" for c cls using cls0 that by blast
  have cov: "map_of colors c \<noteq> None" if "map_of coloring v = Some c" for v c
    using cov0 that by blast
  have proper: "map_of coloring u \<noteq> map_of coloring v"
    if "u \<in> D" "v \<in> D" "u \<noteq> v" "u \<in> set (neighbours adj v)" for u v
    using proper0 that by blast
  have vnone: "map_of coloring v = None" using dom v by auto
  have fresh: "map_of coloring u \<noteq> Some c" if "u \<in> set (neighbours adj v)" for u
  proof
    assume "map_of coloring u = Some c"
    with that have "c \<in> set (List.map_filter (map_of coloring) (neighbours adj v))"
      by (auto simp: set_map_filter_map_of)
    then show False using smallest_free_fresh unfolding c_def by blast
  qed
  let ?coloring' = "AList.update v c coloring"
  let ?colors' = "add_to_class c v colors"
  have m': "map_of ?coloring' = (map_of coloring)(v \<mapsto> c)" by (rule update_conv')
  have 1: "dom (map_of ?coloring') = insert v D" using dom by (simp add: m')
  have 2: "distinct (keys ?colors')" using dk by (rule keys_add_to_class)
  have 3: "distinct cls' \<and> cls' \<noteq> [] \<and> set cls' = {w. map_of ?coloring' w = Some c'}"
    if "map_of ?colors' c' = Some cls'" for c' cls'
  proof (cases "c' = c")
    case False
    with that have "map_of colors c' = Some cls'" by (simp add: map_of_add_to_class)
    from cls [OF this] False vnone show ?thesis by (auto simp: m')
  next
    case True
    show ?thesis
    proof (cases "map_of colors c")
      case None
      then have "{w. map_of coloring w = Some c} = {}" using cov0 by fastforce
      moreover from None that True have "cls' = [v]" by (simp add: map_of_add_to_class)
      ultimately show ?thesis using True by (auto simp: m')
    next
      case (Some old)
      from cls [OF Some] have o: "distinct old" "set old = {w. map_of coloring w = Some c}"
        by simp_all
      then have "v \<notin> set old" using vnone by simp
      moreover from Some that True have "cls' = set_add v old"
        by (simp add: map_of_add_to_class)
      ultimately show ?thesis using o True by (auto simp: m')
    qed
  qed
  have 4: "map_of ?colors' c' \<noteq> None" if "map_of ?coloring' w = Some c'" for w c'
    using that cov by (auto simp: m' map_of_add_to_class split: if_splits)
  have 5: "map_of ?coloring' u \<noteq> map_of ?coloring' w"
    if uw: "u \<in> insert v D" "w \<in> insert v D" "u \<noteq> w" "u \<in> set (neighbours adj w)" for u w
  proof -
    consider "u = v" "w \<in> D" | "w = v" "u \<in> D" | "u \<in> D" "w \<in> D" "u \<noteq> v" "w \<noteq> v"
      using uw v by auto
    then show ?thesis
    proof cases
      case 1
      then have "w \<in> set (neighbours adj v)" using uw sym by blast
      from fresh [OF this] 1 uw show ?thesis by (auto simp: m')
    next
      case 2
      then have "u \<in> set (neighbours adj v)" using uw by simp
      from fresh [OF this] 2 uw show ?thesis by (auto simp: m')
    next
      case 3
      with proper [of u w] uw show ?thesis by (simp add: m')
    qed
  qed
  show ?thesis unfolding step coloring_inv_def using 1 2 3 4 5 by (simp only: prod.case) blast
qed

lemma fold_color_node_inv:
  assumes sym: "\<And>a b. a \<in> set (neighbours adj b) \<Longrightarrow> b \<in> set (neighbours adj a)"
  shows "distinct vs \<Longrightarrow> set vs \<inter> D = {} \<Longrightarrow> coloring_inv adj D st \<Longrightarrow>
           coloring_inv adj (D \<union> set vs) (fold (color_node adj) vs st)"
proof (induction vs arbitrary: D st)
  case Nil
  then show ?case by simp
next
  case (Cons v vs)
  from Cons.prems have v: "v \<notin> D" by simp
  have "coloring_inv adj (insert v D) (color_node adj v st)"
    using Cons.prems(3) v sym by (rule color_node_inv)
  moreover have "distinct vs" "set vs \<inter> insert v D = {}" using Cons.prems by auto
  ultimately have "coloring_inv adj (insert v D \<union> set vs) (fold (color_node adj) vs (color_node adj v st))"
    by (intro Cons.IH)
  then show ?case by simp
qed

lemma greedy_coloring_inv:
  assumes "\<And>a b. a \<in> set (neighbours adj b) \<Longrightarrow> b \<in> set (neighbours adj a)"
  shows "coloring_inv adj (set (keys adj)) (greedy_coloring adj)"
proof -
  have "coloring_inv adj {} ([], [])" by (simp add: coloring_inv_def keys_def)
  with fold_color_node_inv [OF assms, of "sort (remdups (keys adj))" "{}" "([], [])"]
  show ?thesis by (simp add: greedy_coloring_def)
qed


lemma color_graph_classes:
  assumes "color_graph h J = Inr colors"
  shows "distinct (keys colors)"
    and "(c, cls) \<in> set colors \<Longrightarrow> distinct cls"
    and "(c, cls) \<in> set colors \<Longrightarrow> u \<in> set cls \<Longrightarrow> v \<in> set cls \<Longrightarrow> u \<noteq> v \<Longrightarrow>
           (u, v) \<notin> set (keys J) \<and> (v, u) \<notin> set (keys J)"
    and "(c, cls) \<in> set colors \<Longrightarrow> (c', cls') \<in> set colors \<Longrightarrow> c \<noteq> c' \<Longrightarrow>
           set cls \<inter> set cls' = {}"
    and "(\<Union>cls \<in> set (map snd colors). set cls) = set (keys h)"
proof -
  from assms obtain adj where adj: "build_adj h J = Inr adj"
    and colors: "colors = snd (greedy_coloring adj)"
    by (auto simp: color_graph_def rbind_eq_Inr)
  note nb = build_adj_Inr(3) [OF adj] and ks = build_adj_Inr(1) [OF adj]
  have sym: "b \<in> set (neighbours adj a)" if "a \<in> set (neighbours adj b)" for a b
    using that by (auto simp: nb edge_nodes_def)
  obtain coloring where g: "greedy_coloring adj = (coloring, colors)"
    using colors by (cases "greedy_coloring adj") simp
  from greedy_coloring_inv [of adj, OF sym] have inv: "coloring_inv adj (set (keys h)) (coloring, colors)"
    by (simp add: g ks)
  then have dom: "dom (map_of coloring) = set (keys h)"
    and dk: "distinct (keys colors)"
    and cls0: "\<forall>c cls. map_of colors c = Some cls \<longrightarrow>
                distinct cls \<and> cls \<noteq> [] \<and> set cls = {v. map_of coloring v = Some c}"
    and cov0: "\<forall>v c. map_of coloring v = Some c \<longrightarrow> map_of colors c \<noteq> None"
    and proper0: "\<forall>u v. u \<in> set (keys h) \<and> v \<in> set (keys h) \<and> u \<noteq> v \<and>
                 u \<in> set (neighbours adj v) \<longrightarrow> map_of coloring u \<noteq> map_of coloring v"
    unfolding coloring_inv_def prod.case by blast+
  have cl: "distinct cls \<and> cls \<noteq> [] \<and> set cls = {v. map_of coloring v = Some c}"
    if "map_of colors c = Some cls" for c cls using cls0 that by blast
  have cov: "map_of colors c \<noteq> None" if "map_of coloring v = Some c" for v c
    using cov0 that by blast
  have proper: "map_of coloring u \<noteq> map_of coloring v"
    if "u \<in> set (keys h)" "v \<in> set (keys h)" "u \<noteq> v" "u \<in> set (neighbours adj v)" for u v
    using proper0 that by blast
  have look: "map_of colors c = Some cls" if "(c, cls) \<in> set colors" for c cls
    using dk that by (simp add: keys_def)
  show "distinct (keys colors)" by (rule dk)
  show "distinct cls" if "(c, cls) \<in> set colors" using cl [OF look [OF that]] by simp
  show "(u, v) \<notin> set (keys J) \<and> (v, u) \<notin> set (keys J)"
    if "(c, cls) \<in> set colors" "u \<in> set cls" "v \<in> set cls" "u \<noteq> v"
  proof -
    from cl [OF look [OF that(1)]] that have cu: "map_of coloring u = Some c"
      and cv: "map_of coloring v = Some c" by auto
    then have "u \<in> set (keys h)" "v \<in> set (keys h)" using dom by auto
    with proper [of u v] cu cv that(4) have "u \<notin> set (neighbours adj v)" by auto
    then show ?thesis by (auto simp: nb edge_nodes_def)
  qed
  show "set cls \<inter> set cls' = {}"
    if "(c, cls) \<in> set colors" "(c', cls') \<in> set colors" "c \<noteq> c'"
    using cl [OF look [OF that(1)]] cl [OF look [OF that(2)]] that(3) by auto
  show "(\<Union>cls \<in> set (map snd colors). set cls) = set (keys h)"
  proof (intro equalityI subsetI)
    fix v assume "v \<in> (\<Union>cls \<in> set (map snd colors). set cls)"
    then obtain c cls where "(c, cls) \<in> set colors" "v \<in> set cls" by auto
    with cl [OF look] have "map_of coloring v = Some c" by auto
    then show "v \<in> set (keys h)" using dom by auto
  next
    fix v assume "v \<in> set (keys h)"
    then obtain c where c: "map_of coloring v = Some c" using dom by auto
    with cov obtain cls where m: "map_of colors c = Some cls" by auto
    then have "(c, cls) \<in> set colors" by (rule map_of_SomeD)
    moreover have "v \<in> set cls" using cl [OF m] c by simp
    ultimately show "v \<in> (\<Union>cls \<in> set (map snd colors). set cls)" by force
  qed
qed

lemma color_graph_total:
  "couplings_in_model h J \<Longrightarrow> \<exists>colors. color_graph h J = Inr colors"
  using build_adj_total [of h J] by (auto simp: color_graph_def)

lemma rbind_eq_Inl: "rbind m f = Inl e \<longleftrightarrow> m = Inl e \<or> (\<exists>x. m = Inr x \<and> f x = Inl e)"
  by (cases m) simp_all

lemma foldM_Inl: "foldM f xs s = Inl e \<Longrightarrow> \<exists>x \<in> set xs. \<exists>s'. f x s' = Inl e"
  by (induction xs arbitrary: s) (auto simp: rbind_eq_Inl)

lemma add_edge_Inl: "add_edge e adj = Inl err \<Longrightarrow> err = KeyError"
  by (cases e) (auto simp: add_edge_def rbind_eq_Inl lookup_eq_Inl Let_def)

lemma build_adj_error:
  assumes "\<not> couplings_in_model h J"
  shows "build_adj h J = Inl KeyError"
proof (cases "build_adj h J")
  case (Inl e)
  then have "e = KeyError" unfolding build_adj_def by (auto dest!: foldM_Inl add_edge_Inl)
  with Inl show ?thesis by simp
next
  case (Inr adj)
  with build_adj_Inr(2) assms show ?thesis by blast
qed

lemma chain_colors: "color_graph chain_h chain_J = Inr [(0, [0, 2]), (1, [1])]"
  by (simp add: color_graph_def build_adj_def chain_h_eq chain_J_def keys_def empty_adj_def
      add_edge_def lookup_def greedy_coloring_def color_node_def neighbours_def
      smallest_free_def add_to_class_def List.map_filter_def set_add_def upt_rec Let_def)

text \<open>
  C4. Whenever the cell's adjacency set-up succeeds (it does when every coupling joins two
  nodes of the model), the colouring returns classes with distinct colours such that no
  two different nodes of one class are joined by a coupling, no node occurs twice in a
  class, classes of different colours are disjoint, and the union of the classes is the
  node set of the model.
\<close>

theorem color_graph_partition:
  "(couplings_in_model h J \<longrightarrow> (\<exists>colors. color_graph h J = Inr colors)) \<and>
   (\<forall>colors. color_graph h J = Inr colors \<longrightarrow>
      distinct (keys colors) \<and>
      (\<forall>(c, cls) \<in> set colors. distinct cls \<and>
         (\<forall>u \<in> set cls. \<forall>v \<in> set cls. u \<noteq> v \<longrightarrow>
            (u, v) \<notin> set (keys J) \<and> (v, u) \<notin> set (keys J))) \<and>
      (\<forall>(c, cls) \<in> set colors. \<forall>(c', cls') \<in> set colors. c \<noteq> c' \<longrightarrow>
         set cls \<inter> set cls' = {}) \<and>
      (\<Union>cls \<in> set (map snd colors). set cls) = set (keys h))"
proof (intro conjI allI impI)
  assume "couplings_in_model h J"
  then show "\<exists>colors. color_graph h J = Inr colors" by (rule color_graph_total)
next
  fix colors assume r: "color_graph h J = Inr colors"
  show "distinct (keys colors)" by (rule color_graph_classes(1) [OF r])
  show "\<forall>(c, cls) \<in> set colors. distinct cls \<and>
         (\<forall>u \<in> set cls. \<forall>v \<in> set cls. u \<noteq> v \<longrightarrow>
            (u, v) \<notin> set (keys J) \<and> (v, u) \<notin> set (keys J))"
    using color_graph_classes(2,3) [OF r] by blast
  show "\<forall>(c, cls) \<in> set colors. \<forall>(c', cls') \<in> set colors. c \<noteq> c' \<longrightarrow>
         set cls \<inter> set cls' = {}"
    using color_graph_classes(4) [OF r] by blast
  show "(\<Union>cls \<in> set (map snd colors). set cls) = set (keys h)"
    by (rule color_graph_classes(5) [OF r])
qed

theorem color_graph_partition_witness:
  "couplings_in_model chain_h chain_J \<and>
   color_graph chain_h chain_J = Inr [(0, [0, 2]), (1, [1])] \<and>
   (2, 0) \<notin> set (keys chain_J) \<and> (0, 2) \<notin> set (keys chain_J) \<and>
   set [0, 2] \<inter> set [1] = ({} :: nat set) \<and>
   set [0, 2] \<union> set [1] = set (keys chain_h)"
  using color_graph_partition [of chain_h chain_J] chain_colors
  by (simp add: couplings_in_model_def chain_h_eq chain_J_def keys_def)

section \<open>The annealing run\<close>

lemma foldM_append: "foldM f (xs @ ys) s = rbind (foldM f xs s) (foldM f ys)"
  by (induction xs arbitrary: s) (simp_all add: rbind_def split: sum.splits)

lemma foldM_total:
  assumes "P s" "\<And>x s. x \<in> set xs \<Longrightarrow> P s \<Longrightarrow> \<exists>s'. f x s = Inr s' \<and> P s'"
  shows "\<exists>s'. foldM f xs s = Inr s' \<and> P s'"
  using assms
proof (induction xs arbitrary: s)
  case Nil
  then show ?case by simp
next
  case (Cons x xs)
  from Cons.prems obtain s1 where 1: "f x s = Inr s1" "P s1" by fastforce
  have "\<exists>s'. foldM f xs s1 = Inr s' \<and> P s'"
    by (rule Cons.IH) (use 1 Cons.prems(2) in auto)
  with 1 show ?case by simp
qed

lemma in_keys_lookup: "k \<in> set (keys d) \<Longrightarrow> \<exists>v. lookup d k = Inr v \<and> map_of d k = Some v"
  by (cases "map_of d k") (auto simp: lookup_def keys_def map_of_eq_None_iff)

lemma not_in_keys_map_of: "k \<notin> set (keys d) \<Longrightarrow> map_of d k = None"
  by (simp add: keys_def map_of_eq_None_iff)

lemma init_spin_total:
  "\<exists>x k'. init_spin src clamped v (spins, k) = Inr (AList.update v x spins, k') \<and>
          (\<forall>c. map_of clamped v = Some c \<longrightarrow> x = c)"
proof (cases "v \<in> set (keys clamped)")
  case True
  from in_keys_lookup [OF this] show ?thesis
    using True by (auto simp: init_spin_def)
next
  case False
  then have "init_spin src clamped v (spins, k)
               = Inr (AList.update v (choice_at src k) spins, Suc k)"
    and "map_of clamped v = None"
    by (simp_all add: init_spin_def not_in_keys_map_of)
  then show ?thesis by auto
qed

lemma init_spins_fold:
  "\<exists>spins' k'. foldM (init_spin src clamped) vs (spins, k) = Inr (spins', k') \<and>
     dom (map_of spins') = dom (map_of spins) \<union> set vs \<and>
     (\<forall>u c. u \<in> set vs \<and> map_of clamped u = Some c \<longrightarrow> map_of spins' u = Some c) \<and>
     (\<forall>u. u \<notin> set vs \<longrightarrow> map_of spins' u = map_of spins u)"
proof (induction vs arbitrary: spins k)
  case Nil
  then show ?case by simp
next
  case (Cons v vs)
  from init_spin_total [of src clamped v spins k] obtain x k1
    where 1: "init_spin src clamped v (spins, k) = Inr (AList.update v x spins, k1)"
      and x: "\<And>c. map_of clamped v = Some c \<Longrightarrow> x = c" by blast
  from Cons.IH [of "AList.update v x spins" k1] obtain spins' k'
    where 2: "foldM (init_spin src clamped) vs (AList.update v x spins, k1) = Inr (spins', k')"
      and d: "dom (map_of spins') = dom (map_of (AList.update v x spins)) \<union> set vs"
      and c: "\<And>u c. u \<in> set vs \<Longrightarrow> map_of clamped u = Some c \<Longrightarrow> map_of spins' u = Some c"
      and o: "\<And>u. u \<notin> set vs \<Longrightarrow> map_of spins' u = map_of (AList.update v x spins) u"
    by blast
  have "foldM (init_spin src clamped) (v # vs) (spins, k) = Inr (spins', k')"
    using 1 2 by simp
  moreover have "dom (map_of spins') = dom (map_of spins) \<union> set (v # vs)"
    using d by (auto simp: update_conv')
  moreover have "map_of spins' u = Some c'" if "u \<in> set (v # vs)" "map_of clamped u = Some c'" for u c'
  proof (cases "u \<in> set vs")
    case True
    with c that show ?thesis by blast
  next
    case False
    with that have "u = v" by simp
    with o [OF False] x that show ?thesis by (simp add: update_conv')
  qed
  moreover have "map_of spins' u = map_of spins u" if "u \<notin> set (v # vs)" for u
    using o [of u] that by (simp add: update_conv')
  ultimately show ?case by blast
qed

lemma init_spins_total:
  "\<exists>spins k'. init_spins src clamped h k = Inr (spins, k') \<and>
     dom (map_of spins) = set (keys h) \<and>
     (\<forall>u c. u \<in> set (keys h) \<and> map_of clamped u = Some c \<longrightarrow> map_of spins u = Some c)"
  using init_spins_fold [of src clamped "keys h" "[]" k]
  by (auto simp: init_spins_def)

lemma energy_diff_h_total:
  assumes "set (keys h) \<subseteq> dom (map_of spins)"
  shows "\<exists>edh. energy_diff_h h spins = Inr edh \<and> dom (map_of edh) = set (keys h)"
proof -
  let ?g = "\<lambda>v d. rbind (lookup spins v) (\<lambda>s. rbind (lookup h v)
              (\<lambda>hv. Inr (AList.update v (real_of_int (-2 * s) * hv) d)))"
  have "set vs \<subseteq> set (keys h) \<Longrightarrow>
          \<exists>d'. foldM ?g vs d = Inr d' \<and> dom (map_of d') = dom (map_of d) \<union> set vs" for vs d
  proof (induction vs arbitrary: d)
    case Nil
    then show ?case by simp
  next
    case (Cons v vs)
    then have vh: "v \<in> set (keys h)" by simp
    with assms obtain s where s: "lookup spins v = Inr s" by (auto simp: lookup_def)
    from in_keys_lookup [OF vh] obtain hv where hv: "lookup h v = Inr hv" by blast
    from Cons.prems have "set vs \<subseteq> set (keys h)" by simp
    from Cons.IH [OF this, of "AList.update v (real_of_int (-2 * s) * hv) d"] s hv
    show ?case by (auto simp: update_conv')
  qed
  from this [of "keys h" "[]"] show ?thesis by (simp add: energy_diff_h_def)
qed

lemma edge_term_closed:
  assumes "map_of spins v0 = Some s0" "map_of spins v1 = Some s1"
  shows "edge_term J spins v0 v1 e ediff = Inr (ediff + real_of_int (s0 * s1) * coupling J e)"
proof (cases "e \<in> set (keys J)")
  case True
  from in_keys_lookup [OF this] assms True show ?thesis
    by (auto simp: edge_term_def coupling_def lookup_def)
next
  case False
  then show ?thesis by (simp add: edge_term_def coupling_def not_in_keys_map_of)
qed

lemma add_neighbour_closed:
  assumes "map_of spins v0 = Some s0" "map_of spins v1 = Some s1"
  shows "add_neighbour J spins v0 v1 ediff =
           Inr (ediff + real_of_int (s0 * s1) * (coupling J (v0, v1) + coupling J (v1, v0)))"
  by (simp add: add_neighbour_def edge_term_closed [OF assms] algebra_simps)

lemma foldM_add_neighbour_closed:
  assumes "map_of spins v0 = Some s0" "set nbrs \<subseteq> dom (map_of spins)"
  shows "foldM (add_neighbour J spins v0) nbrs ediff =
           Inr (ediff + (\<Sum>v1\<leftarrow>nbrs. real_of_int (s0 * spin_of spins v1)
                                     * (coupling J (v0, v1) + coupling J (v1, v0))))"
  using assms(2)
proof (induction nbrs arbitrary: ediff)
  case Nil
  then show ?case by simp
next
  case (Cons v1 nbrs)
  then obtain s1 where s1: "map_of spins v1 = Some s1" by auto
  then have "spin_of spins v1 = s1" by (simp add: spin_of_def)
  with Cons add_neighbour_closed [OF assms(1) s1, of J ediff] show ?case
    by (simp add: algebra_simps)
qed

lemma coupling_sum_closed:
  assumes "lookup adj v0 = Inr nbrs" "v0 \<in> dom (map_of spins)"
    "set nbrs \<subseteq> dom (map_of spins)"
  shows "coupling_sum J adj spins v0 =
           Inr (\<Sum>v1\<leftarrow>nbrs. real_of_int (spin_of spins v0 * spin_of spins v1)
                              * (coupling J (v0, v1) + coupling J (v1, v0)))"
proof -
  from assms(2) obtain s0 where s0: "map_of spins v0 = Some s0" by auto
  then have "spin_of spins v0 = s0" by (simp add: spin_of_def)
  with foldM_add_neighbour_closed [OF s0 assms(3), of J 0] assms(1) show ?thesis
    by (simp add: coupling_sum_def)
qed

lemma energy_diff_J_total:
  assumes "set nodes \<subseteq> dom (map_of adj)" "set nodes \<subseteq> dom (map_of spins)"
    "\<And>v. set (neighbours adj v) \<subseteq> dom (map_of spins)"
  shows "\<exists>edJ. energy_diff_J J adj spins nodes = Inr edJ \<and> dom (map_of edJ) = set nodes"
proof -
  let ?g = "\<lambda>v0 d. rbind (coupling_sum J adj spins v0)
              (\<lambda>ediff. Inr (AList.update v0 (-2 * ediff) d))"
  have "set vs \<subseteq> set nodes \<Longrightarrow>
          \<exists>d'. foldM ?g vs d = Inr d' \<and> dom (map_of d') = dom (map_of d) \<union> set vs" for vs d
  proof (induction vs arbitrary: d)
    case Nil
    then show ?case by simp
  next
    case (Cons v vs)
    then have vn: "v \<in> set nodes" by simp
    with assms(1) obtain nbrs where l: "lookup adj v = Inr nbrs" "neighbours adj v = nbrs"
      by (auto simp: lookup_def neighbours_def)
    with assms(3) [of v] have "set nbrs \<subseteq> dom (map_of spins)" by simp
    from coupling_sum_closed [OF l(1) _ this, of J] vn assms(2)
    obtain e where e: "coupling_sum J adj spins v = Inr e" by blast
    from Cons.prems have "set vs \<subseteq> set nodes" by simp
    from Cons.IH [OF this, of "AList.update v (-2 * e) d"] e
    show ?case by (auto simp: update_conv')
  qed
  from this [of nodes "[]"] show ?thesis by (simp add: energy_diff_J_def)
qed

lemma flip_node_total:
  assumes "v \<in> dom (map_of edh)" "v \<in> dom (map_of edJ)" "v \<in> dom (map_of spins)"
  shows "\<exists>spins' k'. flip_node src \<beta> edh edJ v (spins, k) = Inr (spins', k') \<and>
           dom (map_of spins') = dom (map_of spins) \<and>
           (\<forall>u. u \<noteq> v \<longrightarrow> map_of spins' u = map_of spins u)"
  using assms by (auto simp: flip_node_def lookup_def Let_def update_conv')

lemma update_color_total:
  assumes "set nodes \<subseteq> dom (map_of adj)" "set nodes \<subseteq> dom (map_of spins)"
    "\<And>v. set (neighbours adj v) \<subseteq> dom (map_of spins)"
    "set nodes \<subseteq> dom (map_of edh)"
  shows "\<exists>spins' k'. update_color src J adj clamped \<beta> edh nodes (spins, k) = Inr (spins', k') \<and>
           dom (map_of spins') = dom (map_of spins) \<and>
           (\<forall>u \<in> set (keys clamped). map_of spins' u = map_of spins u)"
proof -
  from energy_diff_J_total [OF assms(1-3), of J] obtain edJ
    where edJ: "energy_diff_J J adj spins nodes = Inr edJ" "dom (map_of edJ) = set nodes"
    by blast
  define P where "P = (\<lambda>st :: run_state. dom (map_of (fst st)) = dom (map_of spins) \<and>
           (\<forall>u \<in> set (keys clamped). map_of (fst st) u = map_of spins u))"
  have "\<exists>s'. foldM (flip_node src \<beta> edh edJ) (unclamped clamped nodes) (spins, k) = Inr s' \<and> P s'"
  proof (rule foldM_total)
    show "P (spins, k)" by (simp add: P_def)
  next
    fix v and st :: run_state
    assume v: "v \<in> set (unclamped clamped nodes)" and st: "P st"
    obtain sp kk where s: "st = (sp, kk)" by (cases st)
    from v have vn: "v \<in> set nodes" and vc: "v \<notin> set (keys clamped)"
      by (simp_all add: unclamped_def)
    have d: "dom (map_of sp) = dom (map_of spins)"
      and a: "\<forall>u \<in> set (keys clamped). map_of sp u = map_of spins u"
      using st unfolding P_def s by simp_all
    have "v \<in> dom (map_of edh)" "v \<in> dom (map_of edJ)" "v \<in> dom (map_of sp)"
      using vn assms(2,4) edJ(2) d by auto
    from flip_node_total [OF this, of src \<beta> kk]
    obtain sp' kk' where f: "flip_node src \<beta> edh edJ v (sp, kk) = Inr (sp', kk')"
      and d': "dom (map_of sp') = dom (map_of sp)"
      and o: "\<forall>u. u \<noteq> v \<longrightarrow> map_of sp' u = map_of sp u"
      by blast
    have "P (sp', kk')" unfolding P_def using d d' a o vc by auto
    with f show "\<exists>s'. flip_node src \<beta> edh edJ v st = Inr s' \<and> P s'"
      unfolding s by blast
  qed
  with edJ(1) show ?thesis by (auto simp: update_color_def P_def)
qed


lemma sweep_total:
  assumes e1: "dom (map_of adj) = set (keys h)"
    and e2: "\<And>v. set (neighbours adj v) \<subseteq> set (keys h)"
    and e3: "\<And>c cls. (c, cls) \<in> set colors \<Longrightarrow> set cls \<subseteq> set (keys h)"
    and sp: "dom (map_of spins) = set (keys h)"
  shows "\<exists>spins' k'. sweep src h J adj colors clamped \<beta> (spins, k) = Inr (spins', k') \<and>
           dom (map_of spins') = set (keys h) \<and>
           (\<forall>u \<in> set (keys clamped). map_of spins' u = map_of spins u)"
proof -
  from energy_diff_h_total [of h spins] sp obtain edh
    where edh: "energy_diff_h h spins = Inr edh" "dom (map_of edh) = set (keys h)" by auto
  define P where "P = (\<lambda>st :: run_state. dom (map_of (fst st)) = set (keys h) \<and>
           (\<forall>u \<in> set (keys clamped). map_of (fst st) u = map_of spins u))"
  let ?body = "\<lambda>color st. rbind (lookup colors color)
                (\<lambda>nodes. update_color src J adj clamped \<beta> edh nodes st)"
  have "\<exists>s'. foldM ?body (keys colors) (spins, k) = Inr s' \<and> P s'"
  proof (rule foldM_total)
    show "P (spins, k)" by (simp add: P_def sp)
  next
    fix color and st :: run_state
    assume color: "color \<in> set (keys colors)" and st: "P st"
    obtain s0 k0 where s: "st = (s0, k0)" by (cases st)
    have d: "dom (map_of s0) = set (keys h)"
      and a: "\<forall>u \<in> set (keys clamped). map_of s0 u = map_of spins u"
      using st unfolding P_def s by simp_all
    from in_keys_lookup [OF color] obtain cls
      where l: "lookup colors color = Inr cls" and m: "map_of colors color = Some cls" by blast
    from m have "(color, cls) \<in> set colors" by (rule map_of_SomeD)
    then have c: "set cls \<subseteq> set (keys h)" by (rule e3)
    have "\<exists>spins' k'. update_color src J adj clamped \<beta> edh cls (s0, k0) = Inr (spins', k') \<and>
           dom (map_of spins') = dom (map_of s0) \<and>
           (\<forall>u \<in> set (keys clamped). map_of spins' u = map_of s0 u)"
      by (rule update_color_total) (use c e1 e2 d edh(2) in auto)
    then obtain s1 k1 where u: "update_color src J adj clamped \<beta> edh cls (s0, k0) = Inr (s1, k1)"
      and d1: "dom (map_of s1) = dom (map_of s0)"
      and a1: "\<forall>u \<in> set (keys clamped). map_of s1 u = map_of s0 u" by blast
    have "P (s1, k1)" unfolding P_def using d d1 a a1 by simp
    with u l show "\<exists>s'. ?body color st = Inr s' \<and> P s'" unfolding s by simp
  qed
  with edh(1) show ?thesis by (auto simp: sweep_def P_def)
qed

lemma anneal_schedule_total:
  assumes "couplings_in_model h J"
  shows "\<exists>spins k'. anneal_schedule src h J clamped \<beta>s k = Inr (spins, k') \<and>
           dom (map_of spins) = set (keys h) \<and>
           (\<forall>u c. u \<in> set (keys h) \<and> map_of clamped u = Some c \<longrightarrow> map_of spins u = Some c)"
proof -
  from build_adj_total [OF assms] obtain adj where adj: "build_adj h J = Inr adj" by blast
  obtain coloring colors where g: "greedy_coloring adj = (coloring, colors)"
    by (cases "greedy_coloring adj")
  have cg: "color_graph h J = Inr colors" by (simp add: color_graph_def adj g)
  have e1: "dom (map_of adj) = set (keys h)"
    using build_adj_Inr(1) [OF adj] by (simp add: dom_map_of_keys)
  have e2: "set (neighbours adj v) \<subseteq> set (keys h)" for v
    using assms unfolding build_adj_Inr(3) [OF adj]
    by (auto simp: edge_nodes_def couplings_in_model_def list_all_iff)
  have e3: "set cls \<subseteq> set (keys h)" if "(c, cls) \<in> set colors" for c cls
    using color_graph_classes(5) [OF cg] that by force
  from init_spins_total [of src clamped h k] obtain spins0 k0
    where i: "init_spins src clamped h k = Inr (spins0, k0)"
      and d0: "dom (map_of spins0) = set (keys h)"
      and c0: "\<forall>u c. u \<in> set (keys h) \<and> map_of clamped u = Some c \<longrightarrow> map_of spins0 u = Some c"
    by blast
  define P where "P = (\<lambda>st :: run_state. dom (map_of (fst st)) = set (keys h) \<and>
     (\<forall>u c. u \<in> set (keys h) \<and> map_of clamped u = Some c \<longrightarrow> map_of (fst st) u = Some c))"
  have "\<exists>s'. foldM (sweep src h J adj colors clamped) \<beta>s (spins0, k0) = Inr s' \<and> P s'"
  proof (rule foldM_total)
    show "P (spins0, k0)" using d0 c0 by (simp add: P_def)
  next
    fix \<beta> and st :: run_state
    assume st: "P st"
    obtain s0 kk where s: "st = (s0, kk)" by (cases st)
    have d: "dom (map_of s0) = set (keys h)"
      and c: "\<forall>u c. u \<in> set (keys h) \<and> map_of clamped u = Some c \<longrightarrow> map_of s0 u = Some c"
      using st unfolding P_def s by simp_all
    have "\<exists>spins' k'. sweep src h J adj colors clamped \<beta> (s0, kk) = Inr (spins', k') \<and>
           dom (map_of spins') = set (keys h) \<and>
           (\<forall>u \<in> set (keys clamped). map_of spins' u = map_of s0 u)"
      by (rule sweep_total [OF e1 e2 _ d]) (rule e3)
    then obtain s1 k1
      where sw: "sweep src h J adj colors clamped \<beta> (s0, kk) = Inr (s1, k1)"
        and d1: "dom (map_of s1) = set (keys h)"
        and a1: "\<forall>u \<in> set (keys clamped). map_of s1 u = map_of s0 u" by blast
    have "map_of s1 u = Some x" if "u \<in> set (keys h)" "map_of clamped u = Some x" for u x
    proof -
      from that(2) have "u \<in> set (keys clamped)"
        by (metis not_in_keys_map_of option.distinct(1))
      with a1 c that show ?thesis by simp
    qed
    then have "P (s1, k1)" unfolding P_def using d1 by simp
    with sw show "\<exists>s'. sweep src h J adj colors clamped \<beta> st = Inr s' \<and> P s'"
      unfolding s by blast
  qed
  with adj g i show ?thesis by (auto simp: anneal_schedule_def P_def)
qed


lemma anneal_schedule_error:
  "\<not> couplings_in_model h J \<Longrightarrow> anneal_schedule src h J clamped \<beta>s k = Inl KeyError"
  by (simp add: anneal_schedule_def build_adj_error)

lemma anneal_schedule_empty:
  "couplings_in_model h J \<Longrightarrow> anneal_schedule src h J clamped [] k = init_spins src clamped h k"
  using build_adj_total [of h J] init_spins_total [of src clamped h k]
  by (auto simp: anneal_schedule_def split: prod.splits)

lemma anneal_schedule_split:
  "anneal_schedule src h J clamped \<beta>s k =
     rbind (build_adj h J) (\<lambda>adj. case greedy_coloring adj of (coloring, colors) \<Rightarrow>
       rbind (anneal_schedule src h J clamped (take m \<beta>s) k)
         (foldM (sweep src h J adj colors clamped) (drop m \<beta>s)))"
proof (cases "build_adj h J")
  case (Inl e)
  then show ?thesis by (simp add: anneal_schedule_def)
next
  case (Inr adj)
  obtain coloring colors where g: "greedy_coloring adj = (coloring, colors)"
    by (cases "greedy_coloring adj")
  have "foldM (sweep src h J adj colors clamped) \<beta>s s
          = rbind (foldM (sweep src h J adj colors clamped) (take m \<beta>s) s)
              (foldM (sweep src h J adj colors clamped) (drop m \<beta>s))" for s
    using foldM_append [of "sweep src h J adj colors clamped" "take m \<beta>s" "drop m \<beta>s" s]
    by simp
  then show ?thesis
    by (cases "init_spins src clamped h k") (simp_all add: anneal_schedule_def Inr g)
qed

lemma betas_2: "betas 2 = Inr [1, 0]"
  by (simp add: betas_def py_fdiv_def upt_rec)

lemma chain_adj: "build_adj chain_h chain_J = Inr [(0, [1]), (1, [0, 2]), (2, [1])]"
  by (simp add: build_adj_def chain_h_eq chain_J_def keys_def empty_adj_def add_edge_def
      lookup_def set_add_def Let_def)

lemma chain_greedy:
  "greedy_coloring [(0, [1]), (1, [0, 2]), (2, [1])]
     = ([(0, 0), (1, 1), (2, 0)], [(0, [0, 2]), (1, [1])])"
  by (simp add: greedy_coloring_def keys_def color_node_def neighbours_def
      smallest_free_def add_to_class_def List.map_filter_def set_add_def upt_rec Let_def)

lemmas run_simps = init_spins_def init_spin_def sweep_def energy_diff_h_def update_color_def
  energy_diff_J_def coupling_sum_def add_neighbour_def edge_term_def unclamped_def
  flip_node_def accepts_zero keys_def lookup_def chain_h_eq chain_J_def Let_def

lemma chain_run_stray:
  "anneal zero_source chain_h chain_J [(5, - 1)] 2 0 = Inr ([(0, 1), (1, 1), (2, 1)], 9)"
  "anneal fixed_source chain_h chain_J [(5, - 1)] 0 0 = Inr ([(0, 1), (1, 1), (2, 1)], 3)"
  "anneal fixed_source chain_h chain_J [(0, - 1)] 0 0 = Inr ([(0, - 1), (1, 1), (2, 1)], 2)"
  by (simp_all only: anneal_def betas_2 betas_0 anneal_schedule_def chain_adj rbind_Inr
        chain_greedy prod.case)
     (simp_all add: zero_source_def fixed_source_def run_simps)





















text \<open>
  C9 (as amended). The cell validates nothing and has no failure for an invalid
  configuration. For every clamped mapping (its keys may lie outside the model) and every
  schedule, the empty one included, the run completes with a spin for exactly the nodes of
  the model whenever every coupling joins two nodes of the model; with the empty schedule
  (the one \<open>num_sweeps = 0\<close> gives) the result is the initial configuration. When a
  coupling names a node outside the model, the adjacency set-up raises \<open>KeyError\<close>.
\<close>

theorem anneal_no_validation:
  "(couplings_in_model h J \<longrightarrow>
      (\<exists>spins k'. anneal_schedule src h J clamped \<beta>s k = Inr (spins, k') \<and>
         set (keys spins) = set (keys h))) \<and>
   (couplings_in_model h J \<longrightarrow>
      anneal_schedule src h J clamped [] k = init_spins src clamped h k) \<and>
   (betas num_sweeps = Inr \<beta>s \<longrightarrow>
      anneal src h J clamped num_sweeps k = anneal_schedule src h J clamped \<beta>s k) \<and>
   betas 0 = Inr [] \<and>
   (\<not> couplings_in_model h J \<longrightarrow> anneal_schedule src h J clamped \<beta>s k = Inl KeyError)"
proof (intro conjI impI)
  assume c: "couplings_in_model h J"
  from anneal_schedule_total [OF c, of src clamped \<beta>s k]
  show "\<exists>spins k'. anneal_schedule src h J clamped \<beta>s k = Inr (spins, k') \<and>
         set (keys spins) = set (keys h)"
    by (auto simp: dom_map_of_keys)
next
  assume "couplings_in_model h J"
  then show "anneal_schedule src h J clamped [] k = init_spins src clamped h k"
    by (rule anneal_schedule_empty)
next
  assume "betas num_sweeps = Inr \<beta>s"
  then show "anneal src h J clamped num_sweeps k = anneal_schedule src h J clamped \<beta>s k"
    by (simp add: anneal_def)
next
  show "betas 0 = Inr []" by (rule betas_0)
next
  assume "\<not> couplings_in_model h J"
  then show "anneal_schedule src h J clamped \<beta>s k = Inl KeyError"
    by (rule anneal_schedule_error)
qed

theorem anneal_no_validation_witness:
  "anneal_schedule zero_source chain_h chain_J [(5, - 1)] [1, 0] 0
     = Inr ([(0, 1), (1, 1), (2, 1)], 9) \<and>
   set (keys [(0, 1 :: int), (1, 1), (2, 1)]) = set (keys chain_h) \<and>
   anneal_schedule fixed_source chain_h chain_J [(5, - 1)] [] 0
     = init_spins fixed_source [(5, - 1)] chain_h 0 \<and>
   anneal zero_source chain_h chain_J [(5, - 1)] 2 0
     = anneal_schedule zero_source chain_h chain_J [(5, - 1)] [1, 0] 0 \<and>
   anneal_schedule fixed_source chain_h [((0, 7), 1)] [(5, - 1)] [1] 0 = Inl KeyError"
  using anneal_no_validation [of chain_h chain_J zero_source "[(5, - 1)]" "[1, 0]" 0 2]
    anneal_no_validation [of chain_h chain_J fixed_source "[(5, - 1)]" "[]" 0 0]
    anneal_no_validation [of chain_h "[((0, 7), 1)]" fixed_source "[(5, - 1)]" "[1]" 0 0]
    chain_run_stray(1) betas_2
  by (simp add: couplings_in_model_def chain_h_eq chain_J_def keys_def)

text \<open>
  C9 as stated fails in both directions: with the clamped node id 5, which is not a node
  of the chain, and with an empty schedule, the cell returns a configuration instead of
  failing; and with a clamped node of the model and a schedule of two sweeps the run does
  not complete when a coupling names a node outside the model.
\<close>

theorem anneal_invalid_configuration_counterexample:
  "5 \<notin> set (keys chain_h) \<and> betas 0 = Inr [] \<and>
   anneal fixed_source chain_h chain_J [(5, - 1)] 0 0 = Inr ([(0, 1), (1, 1), (2, 1)], 3) \<and>
   anneal zero_source chain_h chain_J [(5, - 1)] 2 0 = Inr ([(0, 1), (1, 1), (2, 1)], 9) \<and>
   anneal fixed_source chain_h chain_J [(0, - 1)] 0 0 = Inr ([(0, - 1), (1, 1), (2, 1)], 2) \<and>
   0 \<in> set (keys chain_h) \<and> betas 2 = Inr [1, 0] \<and>
   anneal fixed_source chain_h [((0, 7), 1)] [(0, - 1)] 2 0 = Inl KeyError"
proof -
  have "\<not> couplings_in_model chain_h [((0, 7), 1)]"
    by (simp add: couplings_in_model_def chain_h_eq keys_def)
  then have "anneal fixed_source chain_h [((0, 7), 1)] [(0, - 1)] 2 0 = Inl KeyError"
    by (simp add: anneal_def betas_2 anneal_schedule_error)
  moreover have "5 \<notin> set (keys chain_h)" "0 \<in> set (keys chain_h)"
    by (simp_all add: chain_h_eq keys_def)
  ultimately show ?thesis
    by (simp add: chain_run_stray betas_0 betas_2)
qed

end
